theory Spec2Isabelle
  imports Main "HOL-Library.AList"
begin

section \<open>Python strings\<close>

text \<open>
  A Python \<open>str\<close> is a sequence of Unicode code points, so a string is modelled as a
  list of code points (natural numbers) and its length counts code points.  String
  literals of the source are ASCII and are written \<open>ustr ''...''\<close>.
\<close>

type_synonym pystr = "nat list"

definition ustr :: "string \<Rightarrow> pystr" where
  "ustr s = map of_char s"

text \<open>
  \<open>str.isspace\<close> for one code point: U+0009..U+000D, U+001C..U+0020, U+0085, U+00A0,
  U+1680, U+2000..U+200A, U+2028, U+2029, U+202F, U+205F and U+3000.
\<close>

definition isspace :: "nat \<Rightarrow> bool" where
  "isspace c \<longleftrightarrow>
     (9 \<le> c \<and> c \<le> 13) \<or> (28 \<le> c \<and> c \<le> 32) \<or> c = 133 \<or> c = 160 \<or> c = 5760 \<or>
     (8192 \<le> c \<and> c \<le> 8202) \<or> c = 8232 \<or> c = 8233 \<or> c = 8239 \<or> c = 8287 \<or> c = 12288"

text \<open>
  \<open>s.split()\<close> with no separator: runs of whitespace separate the words, and leading
  and trailing whitespace yields no empty word.
\<close>

function py_split :: "pystr \<Rightarrow> pystr list" where
  "py_split s =
     (case dropWhile isspace s of
        [] \<Rightarrow> []
      | c # cs \<Rightarrow>
          (c # takeWhile (\<lambda>x. \<not> isspace x) cs) # py_split (dropWhile (\<lambda>x. \<not> isspace x) cs))"
  by pat_completeness auto
termination
proof (relation "measure length")
  show "wf (measure length)" by simp
next
  fix s :: pystr and c cs
  assume "dropWhile isspace s = c # cs"
  then have "length (c # cs) \<le> length s"
    by (metis length_dropWhile_le)
  moreover have "length (dropWhile (\<lambda>x. \<not> isspace x) cs) \<le> length cs"
    by (rule length_dropWhile_le)
  ultimately show "(dropWhile (\<lambda>x. \<not> isspace x) cs, s) \<in> measure length"
    by simp
qed

declare py_split.simps [simp del]

text \<open>\<open>s.strip()\<close>: leading and trailing whitespace removed.\<close>

definition py_strip :: "pystr \<Rightarrow> pystr" where
  "py_strip s = rev (dropWhile isspace (rev (dropWhile isspace s)))"

text \<open>\<open>sep.join(parts)\<close>.\<close>

fun py_join :: "pystr \<Rightarrow> pystr list \<Rightarrow> pystr" where
  "py_join sep [] = []"
| "py_join sep [p] = p"
| "py_join sep (p # q # ps) = p @ sep @ py_join sep (q # ps)"

text \<open>\<open>s.endswith(suffix)\<close>.\<close>

definition py_endswith :: "pystr \<Rightarrow> pystr \<Rightarrow> bool" where
  "py_endswith s suf \<longleftrightarrow> length suf \<le> length s \<and> drop (length s - length suf) s = suf"

text \<open>\<open>str(n)\<close> for a non-negative integer: its decimal digits.\<close>

fun str_nat :: "nat \<Rightarrow> pystr" where
  "str_nat n = (if n < 10 then [48 + n] else str_nat (n div 10) @ [48 + n mod 10])"

declare str_nat.simps [simp del]

section \<open>Exceptions\<close>

text \<open>
  The exceptions that can leave the functions of the engine, each with its message:
  \<open>ValueError\<close> (raised by the constructor and by \<open>range\<close>), \<open>OSError\<close> (the data
  directory or a file cannot be read), \<open>AttributeError\<close> (the index handle is still
  \<open>None\<close>) and \<open>ProviderError\<close>, which stands for whatever the OpenAI or Pinecone
  client raises.
\<close>

datatype exn =
    ValueError pystr
  | OSError pystr
  | AttributeError pystr
  | ProviderError pystr

section \<open>The engine object\<close>

text \<open>
  The attributes of a \<open>RAGEngine\<close>.  The attribute \<open>index\<close> is \<open>None\<close> until
  \<open>initialize\<close> connects it; afterwards it is a handle on the named Pinecone index.
  The two client objects carry nothing but the keys and are not attributes of the model.
\<close>

record engine =
  pinecone_api_key :: pystr
  openai_api_key :: pystr
  index_name :: pystr
  index :: "pystr option"
  embedding_model :: pystr
  embedding_dimension :: nat
  llm_model :: pystr
  data_dir :: pystr

section \<open>The text chunker\<close>

text \<open>
  The loop \<open>for i in range(0, len(words), chunk_size)\<close> of \<open>chunk_text\<close> for a
  positive step, with \<open>chunks\<close> as the list built so far.  A step of zero never
  reaches the loop (\<open>range\<close> raises), so the loop stops there.
\<close>

function chunk_loop :: "pystr list \<Rightarrow> nat \<Rightarrow> nat \<Rightarrow> pystr list \<Rightarrow> pystr list" where
  "chunk_loop words chunk_size i chunks =
     (if chunk_size = 0 \<or> length words \<le> i then chunks
      else
        let chunk = py_join [32] (take chunk_size (drop i words)) in
        chunk_loop words chunk_size (i + chunk_size)
          (if py_strip chunk \<noteq> [] then chunks @ [py_strip chunk] else chunks))"
  by pat_completeness auto
termination
  by (relation "measure (\<lambda>(words, chunk_size, i, chunks). length words - i)") auto

declare chunk_loop.simps [simp del]

text \<open>
  \<open>chunk_text(self, text, chunk_size)\<close>.  \<open>range\<close> raises \<open>ValueError\<close> for a step
  of zero and is empty for a negative step.
\<close>

definition chunk_text :: "engine \<Rightarrow> pystr \<Rightarrow> int \<Rightarrow> exn + pystr list" where
  "chunk_text self text chunk_size =
     (let words = py_split text in
      if chunk_size = 0 then Inl (ValueError (ustr ''range() arg 3 must not be zero''))
      else if chunk_size < 0 then Inr []
      else Inr (chunk_loop words (nat chunk_size) 0 []))"

section \<open>The outside world\<close>

text \<open>
  The engine talks to three outside parties: the process environment and the data
  directory, the OpenAI service and the Pinecone service.  The type \<open>'f\<close> stands for
  the floating-point numbers of embeddings and scores; the engine passes them on and
  never computes with them.
\<close>

record 'f vec_record =
  vid :: pystr
  vvalues :: "'f list"
  meta_text :: pystr
  meta_source :: pystr
  meta_chunk_index :: nat

record 'f match =
  match_id :: pystr
  match_score :: 'f
  match_text :: pystr
  match_source :: pystr

text \<open>The calls the engine makes on the two services, with their arguments.\<close>

datatype 'f call =
    ListIndexes
  | CreateIndex pystr nat pystr pystr pystr
  | OpenIndex pystr
  | DescribeIndexStats pystr
  | Upsert pystr "'f vec_record list"
  | QueryIndex pystr "'f list" nat bool
  | EmbeddingsCreate pystr pystr
  | ChatCompletionsCreate pystr "(pystr \<times> pystr) list" nat

text \<open>
  The world: the environment variables; the entries of the data directory in the order
  \<open>os.listdir\<close> gives them, each with its content (\<open>None\<close> for an entry that cannot
  be opened and read as UTF-8; the directory itself is \<open>None\<close> when it cannot be
  listed); the Pinecone indexes by name, each with its records; and the calls made so
  far, oldest first.  The remaining fields are the behaviour of the outside, which the
  engine does not control: whether a call raises (given the calls before it), the
  embedding of a text, the ranking Pinecone computes for a query vector, the reply of
  the language model, and the string hash that orders the elements of a \<open>set\<close>.
  What the engine prints on the console is not part of the world.
\<close>

record 'f world =
  environ :: "pystr \<Rightarrow> pystr option"
  data_path :: pystr
  data_files :: "(pystr \<times> pystr option) list option"
  pinecone :: "(pystr \<times> 'f vec_record list) list"
  calls :: "'f call list"
  fault :: "'f call list \<Rightarrow> 'f call \<Rightarrow> exn option"
  embedding_of :: "'f call list \<Rightarrow> pystr \<Rightarrow> 'f list"
  ranking :: "'f call list \<Rightarrow> 'f vec_record list \<Rightarrow> 'f list \<Rightarrow> 'f match list"
  completion_of :: "'f call list \<Rightarrow> (pystr \<times> pystr) list \<Rightarrow> pystr"
  hash_of :: "pystr \<Rightarrow> nat"

text \<open>A call on a service is recorded, and the outside decides whether it raises.\<close>

definition external :: "'f call \<Rightarrow> 'f world \<Rightarrow> exn option \<times> 'f world" where
  "external c w = (fault w (calls w) c, w\<lparr>calls := calls w @ [c]\<rparr>)"

subsection \<open>The vector store\<close>

text \<open>
  The Pinecone client is an external library; its source is not part of the repository.
  Its operations are modelled by the contract the specification gives for the vector
  store (section 4.3): \<open>upsert\<close> inserts or replaces by id, \<open>describe\<close> reports the
  number of records, \<open>query\<close> returns at most \<open>top_k\<close> records in ranked order.  Every
  operation is recorded as a call, may raise as the outside decides, and changes
  nothing in the store when it raises.
\<close>

text \<open>
  Modelled from the spec: the effect of upserting one record (Pinecone's \<open>upsert\<close> is
  missing from the sources), insert-or-replace by \<open>id\<close>.
\<close>

fun upsert_one :: "'f vec_record \<Rightarrow> 'f vec_record list \<Rightarrow> 'f vec_record list" where
  "upsert_one r [] = [r]"
| "upsert_one r (x # xs) = (if vid x = vid r then r # xs else x # upsert_one r xs)"

text \<open>
  Modelled from the spec: the effect of one \<open>upsert\<close> call with a list of records
  (Pinecone's \<open>upsert\<close> is missing from the sources), record by record in order.
\<close>

definition upsert_all :: "'f vec_record list \<Rightarrow> 'f vec_record list \<Rightarrow> 'f vec_record list" where
  "upsert_all vectors recs = foldl (\<lambda>acc r. upsert_one r acc) recs vectors"

text \<open>
  Modelled from the spec: \<open>Pinecone.list_indexes\<close> (missing from the sources) gives the
  indexes that exist; \<open>initialize\<close> reads their names.
\<close>

definition pc_list_indexes :: "'f world \<Rightarrow> (exn + pystr list) \<times> 'f world" where
  "pc_list_indexes w =
     (case external ListIndexes w of
        (Some e, w') \<Rightarrow> (Inl e, w')
      | (None, w') \<Rightarrow> (Inr (map fst (pinecone w')), w'))"

text \<open>
  Modelled from the spec: \<open>Pinecone.create_index\<close> (missing from the sources) adds an
  empty index of the given name, and raises when the name is taken.
\<close>

definition pc_create_index ::
    "pystr \<Rightarrow> nat \<Rightarrow> pystr \<Rightarrow> pystr \<Rightarrow> pystr \<Rightarrow> 'f world \<Rightarrow> (exn + unit) \<times> 'f world" where
  "pc_create_index name dimension metric cloud region w =
     (case external (CreateIndex name dimension metric cloud region) w of
        (Some e, w') \<Rightarrow> (Inl e, w')
      | (None, w') \<Rightarrow>
          (case map_of (pinecone w') name of
             Some recs \<Rightarrow> (Inl (ProviderError (ustr ''index already exists'')), w')
           | None \<Rightarrow> (Inr (), w'\<lparr>pinecone := pinecone w' @ [(name, [])]\<rparr>)))"

text \<open>
  Modelled from the spec: \<open>Pinecone.Index\<close> (missing from the sources) gives a handle
  on an existing index.
\<close>

definition pc_Index :: "pystr \<Rightarrow> 'f world \<Rightarrow> (exn + pystr) \<times> 'f world" where
  "pc_Index name w =
     (case external (OpenIndex name) w of
        (Some e, w') \<Rightarrow> (Inl e, w')
      | (None, w') \<Rightarrow>
          (case map_of (pinecone w') name of
             None \<Rightarrow> (Inl (ProviderError (ustr ''index not found'')), w')
           | Some recs \<Rightarrow> (Inr name, w')))"

record index_stats =
  total_vector_count :: nat

text \<open>
  The three operations on \<open>self.index\<close> follow.  While the attribute is \<open>None\<close> the
  attribute access raises \<open>AttributeError\<close> and no call is made.
\<close>

text \<open>
  Modelled from the spec: \<open>Index.describe_index_stats\<close> (missing from the sources)
  reports the number of records the index holds.
\<close>

definition describe_index_stats :: "pystr option \<Rightarrow> 'f world \<Rightarrow> (exn + index_stats) \<times> 'f world" where
  "describe_index_stats handle w =
     (case handle of
        None \<Rightarrow> (Inl (AttributeError (ustr ''describe_index_stats'')), w)
      | Some name \<Rightarrow>
          (case external (DescribeIndexStats name) w of
             (Some e, w') \<Rightarrow> (Inl e, w')
           | (None, w') \<Rightarrow>
               (case map_of (pinecone w') name of
                  None \<Rightarrow> (Inl (ProviderError (ustr ''index not found'')), w')
                | Some recs \<Rightarrow> (Inr \<lparr>total_vector_count = length recs\<rparr>, w'))))"

text \<open>
  Modelled from the spec: \<open>Index.upsert\<close> (missing from the sources) inserts or
  replaces the given records by id.
\<close>

definition upsert :: "pystr option \<Rightarrow> 'f vec_record list \<Rightarrow> 'f world \<Rightarrow> (exn + unit) \<times> 'f world" where
  "upsert handle vectors w =
     (case handle of
        None \<Rightarrow> (Inl (AttributeError (ustr ''upsert'')), w)
      | Some name \<Rightarrow>
          (case external (Upsert name vectors) w of
             (Some e, w') \<Rightarrow> (Inl e, w')
           | (None, w') \<Rightarrow>
               (case map_of (pinecone w') name of
                  None \<Rightarrow> (Inl (ProviderError (ustr ''index not found'')), w')
                | Some recs \<Rightarrow>
                    (Inr (), w'\<lparr>pinecone := AList.update name (upsert_all vectors recs) (pinecone w')\<rparr>))))"

text \<open>
  Modelled from the spec: \<open>Index.query\<close> (missing from the sources) returns at most
  \<open>top_k\<close> of the records of the index, in the order of the ranking the service
  computes for the query vector.
\<close>

definition index_query ::
    "pystr option \<Rightarrow> 'f list \<Rightarrow> nat \<Rightarrow> bool \<Rightarrow> 'f world \<Rightarrow> (exn + 'f match list) \<times> 'f world" where
  "index_query handle vector top_k include_metadata w =
     (case handle of
        None \<Rightarrow> (Inl (AttributeError (ustr ''query'')), w)
      | Some name \<Rightarrow>
          (case external (QueryIndex name vector top_k include_metadata) w of
             (Some e, w') \<Rightarrow> (Inl e, w')
           | (None, w') \<Rightarrow>
               (case map_of (pinecone w') name of
                  None \<Rightarrow> (Inl (ProviderError (ustr ''index not found'')), w')
                | Some recs \<Rightarrow> (Inr (take top_k (ranking w (calls w) recs vector)), w'))))"

subsection \<open>The OpenAI service\<close>

text \<open>
  Modelled from the spec: \<open>client.embeddings.create\<close> (the OpenAI client is missing from
  the sources) returns the embedding of one text (section 4.2), or raises.
\<close>

definition embeddings_create :: "pystr \<Rightarrow> pystr \<Rightarrow> 'f world \<Rightarrow> (exn + 'f list) \<times> 'f world" where
  "embeddings_create model input w =
     (case external (EmbeddingsCreate model input) w of
        (Some e, w') \<Rightarrow> (Inl e, w')
      | (None, w') \<Rightarrow> (Inr (embedding_of w (calls w) input), w'))"

text \<open>
  Modelled from the spec: \<open>client.chat.completions.create\<close> (the OpenAI client is
  missing from the sources) returns the content of the first completion, or raises.
\<close>

definition chat_completions_create ::
    "pystr \<Rightarrow> (pystr \<times> pystr) list \<Rightarrow> nat \<Rightarrow> 'f world \<Rightarrow> (exn + pystr) \<times> 'f world" where
  "chat_completions_create model messages max_tokens w =
     (case external (ChatCompletionsCreate model messages max_tokens) w of
        (Some e, w') \<Rightarrow> (Inl e, w')
      | (None, w') \<Rightarrow> (Inr (completion_of w (calls w) messages), w'))"

section \<open>The engine\<close>

subsection \<open>Construction\<close>

text \<open>
  \<open>RAGEngine.__init__\<close>: both keys are read from the environment, then checked in
  turn; \<open>not key\<close> holds for a missing key and for an empty one.  Building the two
  client objects makes no call.  \<open>data_path\<close> is the value of
  \<open>os.path.join(os.path.dirname(os.path.dirname(__file__)), "data")\<close>.
\<close>

definition RAGEngine_init :: "'f world \<Rightarrow> exn + engine" where
  "RAGEngine_init w =
     (let pinecone_key = environ w (ustr ''PINECONE_API_KEY'');
          openai_key = environ w (ustr ''OPENAI_API_KEY'')
      in
        case pinecone_key of
          None \<Rightarrow> Inl (ValueError (ustr ''PINECONE_API_KEY not found in environment variables''))
        | Some pk \<Rightarrow>
            if pk = [] then
              Inl (ValueError (ustr ''PINECONE_API_KEY not found in environment variables''))
            else
              (case openai_key of
                 None \<Rightarrow> Inl (ValueError (ustr ''OPENAI_API_KEY not found in environment variables''))
               | Some ok \<Rightarrow>
                   if ok = [] then
                     Inl (ValueError (ustr ''OPENAI_API_KEY not found in environment variables''))
                   else
                     Inr \<lparr>pinecone_api_key = pk,
                          openai_api_key = ok,
                          index_name = ustr ''acme-tech-chatbot'',
                          index = None,
                          embedding_model = ustr ''text-embedding-3-small'',
                          embedding_dimension = 1536,
                          llm_model = ustr ''gpt-3.5-turbo'',
                          data_dir = data_path w\<rparr>))"

definition get_embedding :: "engine \<Rightarrow> pystr \<Rightarrow> 'f world \<Rightarrow> (exn + 'f list) \<times> 'f world" where
  "get_embedding self text = embeddings_create (embedding_model self) text"

subsection \<open>Indexing\<close>

record document =
  doc_id :: pystr
  doc_text :: pystr
  doc_source :: pystr
  doc_chunk_index :: nat

text \<open>
  The first loop of \<open>index_documents\<close>, over the entries of the data directory, with
  \<open>documents\<close> as the list built so far.  \<open>chunk_text\<close> is called with its default
  \<open>chunk_size\<close> of 512, and the id is the f-string \<open>{filename}_{i}\<close>.
\<close>

fun read_files :: "engine \<Rightarrow> (pystr \<times> pystr option) list \<Rightarrow> document list \<Rightarrow> exn + document list" where
  "read_files self [] documents = Inr documents"
| "read_files self ((filename, file) # entries) documents =
     (if py_endswith filename (ustr ''.txt'') \<or> py_endswith filename (ustr ''.md'') then
        (case file of
           None \<Rightarrow> Inl (OSError filename)
         | Some content \<Rightarrow>
             (case chunk_text self content 512 of
                Inl e \<Rightarrow> Inl e
              | Inr chunks \<Rightarrow>
                  read_files self entries
                    (documents @
                       map (\<lambda>(i, chunk).
                              \<lparr>doc_id = filename @ ustr ''_'' @ str_nat i,
                               doc_text = chunk,
                               doc_source = filename,
                               doc_chunk_index = i\<rparr>)
                         (enumerate 0 chunks))))
      else read_files self entries documents)"

text \<open>The inner loop \<open>for doc in batch\<close>, with \<open>vectors\<close> as the list built so far.\<close>

fun embed_batch ::
    "engine \<Rightarrow> document list \<Rightarrow> 'f vec_record list \<Rightarrow> 'f world \<Rightarrow> (exn + 'f vec_record list) \<times> 'f world" where
  "embed_batch self [] vectors w = (Inr vectors, w)"
| "embed_batch self (doc # batch) vectors w =
     (case get_embedding self (doc_text doc) w of
        (Inl e, w') \<Rightarrow> (Inl e, w')
      | (Inr embedding, w') \<Rightarrow>
          embed_batch self batch
            (vectors @
               [\<lparr>vid = doc_id doc,
                 vvalues = embedding,
                 meta_text = doc_text doc,
                 meta_source = doc_source doc,
                 meta_chunk_index = doc_chunk_index doc\<rparr>])
            w')"

text \<open>The body of the outer loop: embed every document of the batch, then upsert.\<close>

definition process_batch :: "engine \<Rightarrow> document list \<Rightarrow> 'f world \<Rightarrow> (exn + unit) \<times> 'f world" where
  "process_batch self batch w =
     (case embed_batch self batch [] w of
        (Inl e, w') \<Rightarrow> (Inl e, w')
      | (Inr vectors, w') \<Rightarrow> upsert (index self) vectors w')"

text \<open>The outer loop \<open>for i in range(0, len(documents), batch_size)\<close> with \<open>batch_size = 100\<close>.\<close>

function batch_loop :: "engine \<Rightarrow> document list \<Rightarrow> nat \<Rightarrow> 'f world \<Rightarrow> (exn + unit) \<times> 'f world" where
  "batch_loop self documents i w =
     (if length documents \<le> i then (Inr (), w)
      else
        (case process_batch self (take 100 (drop i documents)) w of
           (Inl e, w') \<Rightarrow> (Inl e, w')
         | (Inr u, w') \<Rightarrow> batch_loop self documents (i + 100) w'))"
  by pat_completeness auto
termination
  by (relation "measure (\<lambda>(self, documents, i, w). length documents - i)") auto

declare batch_loop.simps [simp del]

definition index_documents :: "engine \<Rightarrow> 'f world \<Rightarrow> (exn + unit) \<times> 'f world" where
  "index_documents self w =
     (case data_files w of
        None \<Rightarrow> (Inl (OSError (data_dir self)), w)
      | Some entries \<Rightarrow>
          (case read_files self entries [] of
             Inl e \<Rightarrow> (Inl e, w)
           | Inr documents \<Rightarrow> batch_loop self documents 0 w))"

subsection \<open>Initialisation\<close>

text \<open>
  \<open>initialize\<close> assigns \<open>self.index\<close>, so it returns the engine as it leaves it, also
  when it raises.
\<close>

definition initialize :: "engine \<Rightarrow> 'f world \<Rightarrow> (exn + unit) \<times> engine \<times> 'f world" where
  "initialize self w =
     (case pc_list_indexes w of
        (Inl e, w1) \<Rightarrow> (Inl e, self, w1)
      | (Inr existing_indexes, w1) \<Rightarrow>
          (case (if index_name self \<notin> set existing_indexes then
                   pc_create_index (index_name self) (embedding_dimension self)
                     (ustr ''cosine'') (ustr ''aws'') (ustr ''us-east-1'') w1
                 else (Inr (), w1)) of
             (Inl e, w2) \<Rightarrow> (Inl e, self, w2)
           | (Inr u, w2) \<Rightarrow>
               (case pc_Index (index_name self) w2 of
                  (Inl e, w3) \<Rightarrow> (Inl e, self, w3)
                | (Inr handle, w3) \<Rightarrow>
                    (let self' = self\<lparr>index := Some handle\<rparr> in
                     case describe_index_stats (index self') w3 of
                       (Inl e, w4) \<Rightarrow> (Inl e, self', w4)
                     | (Inr stats, w4) \<Rightarrow>
                         if total_vector_count stats = 0 then
                           (case index_documents self' w4 of (r, w5) \<Rightarrow> (r, self', w5))
                         else (Inr (), self', w4)))))"

subsection \<open>Answering a question\<close>

record 'f retrieved =
  r_text :: pystr
  r_source :: pystr
  r_score :: 'f

definition retrieve_relevant_chunks ::
    "engine \<Rightarrow> pystr \<Rightarrow> nat \<Rightarrow> 'f world \<Rightarrow> (exn + 'f retrieved list) \<times> 'f world" where
  "retrieve_relevant_chunks self query top_k w =
     (case get_embedding self query w of
        (Inl e, w1) \<Rightarrow> (Inl e, w1)
      | (Inr query_embedding, w1) \<Rightarrow>
          (case index_query (index self) query_embedding top_k True w1 of
             (Inl e, w2) \<Rightarrow> (Inl e, w2)
           | (Inr matches, w2) \<Rightarrow>
               (Inr (map (\<lambda>m. \<lparr>r_text = match_text m, r_source = match_source m,
                                r_score = match_score m\<rparr>) matches), w2)))"

text \<open>The context block and the prompt of \<open>generate_response\<close>; code point 10 is the newline.\<close>

definition build_context :: "'f retrieved list \<Rightarrow> pystr" where
  "build_context context_chunks =
     py_join [10, 10]
       (map (\<lambda>chunk. ustr ''[Source: '' @ r_source chunk @ ustr '']'' @ [10] @ r_text chunk)
          context_chunks)"

definition build_prompt :: "pystr \<Rightarrow> pystr \<Rightarrow> pystr" where
  "build_prompt context query =
     ustr ''You are a helpful assistant for Acme Tech Solutions. Answer the user'' @ [39] @
     ustr ''s question based on the following context from company documents.'' @ [10, 10] @
     ustr ''Context:'' @ [10] @
     context @ [10, 10] @
     ustr ''User Question: '' @ query @ [10, 10] @
     ustr ''Instructions:'' @ [10] @
     ustr ''- Answer based on the provided context'' @ [10] @
     ustr ''- Be helpful and conversational'' @ [10] @
     ustr ''- If the context doesn'' @ [39] @
     ustr ''t contain enough information to answer fully, say so'' @ [10] @
     ustr ''- Do not make up information not present in the context'' @ [10, 10] @
     ustr ''Answer:''"

text \<open>
  \<open>generate_response\<close>.  The sampling temperature is the constant 0.7 and is not an
  argument of the recorded call; \<open>max_tokens\<close> is 500.
\<close>

definition generate_response ::
    "engine \<Rightarrow> pystr \<Rightarrow> 'f retrieved list \<Rightarrow> 'f world \<Rightarrow> (exn + pystr) \<times> 'f world" where
  "generate_response self query context_chunks w =
     (let ctx = build_context context_chunks;
          prompt = build_prompt ctx query
      in chat_completions_create (llm_model self)
           [(ustr ''system'', ustr ''You are a helpful assistant for Acme Tech Solutions.''),
            (ustr ''user'', prompt)]
           500 w)"

text \<open>
  \<open>list(set(xs))\<close>: the distinct elements of \<open>xs\<close>, in the order the hash table iterates
  them.  That order depends on the string hash of the process; every function \<open>h\<close>
  gives one order, and every order of the distinct elements is given by some \<open>h\<close>.
\<close>

definition py_list_set :: "(pystr \<Rightarrow> nat) \<Rightarrow> pystr list \<Rightarrow> pystr list" where
  "py_list_set h xs = sort_key h (remdups xs)"

text \<open>\<open>query\<close> calls \<open>retrieve_relevant_chunks\<close> with its default \<open>top_k\<close> of 3.\<close>

definition query :: "engine \<Rightarrow> pystr \<Rightarrow> 'f world \<Rightarrow> (exn + pystr \<times> pystr list) \<times> 'f world" where
  "query self user_query w =
     (case retrieve_relevant_chunks self user_query 3 w of
        (Inl e, w1) \<Rightarrow> (Inl e, w1)
      | (Inr relevant_chunks, w1) \<Rightarrow>
          (case generate_response self user_query relevant_chunks w1 of
             (Inl e, w2) \<Rightarrow> (Inl e, w2)
           | (Inr response, w2) \<Rightarrow>
               (Inr (response, py_list_set (hash_of w2) (map r_source relevant_chunks)), w2)))"

section \<open>The application\<close>

text \<open>
  The module-level variable \<open>rag_engine\<close> of \<open>main.py\<close>, and the startup half of
  \<open>lifespan\<close> (up to its \<open>yield\<close>): an exception of the constructor or of
  \<open>initialize\<close> is raised again, so startup fails and the application serves nothing.
\<close>

record app_state =
  rag_engine :: "engine option"

definition app_initial :: app_state where
  "app_initial = \<lparr>rag_engine = None\<rparr>"

definition lifespan_startup :: "app_state \<Rightarrow> 'f world \<Rightarrow> (exn + unit) \<times> app_state \<times> 'f world" where
  "lifespan_startup app w =
     (case RAGEngine_init w of
        Inl e \<Rightarrow> (Inl e, app, w)
      | Inr eng \<Rightarrow>
          (case initialize eng w of
             (r, eng', w') \<Rightarrow> (r, app\<lparr>rag_engine := Some eng'\<rparr>, w')))"

fun exn_str :: "exn \<Rightarrow> pystr" where
  "exn_str (ValueError m) = m"
| "exn_str (OSError m) = m"
| "exn_str (AttributeError m) = m"
| "exn_str (ProviderError m) = m"

datatype http_result =
    ChatResponse pystr "pystr list"
  | HTTPException nat pystr

definition chat :: "app_state \<Rightarrow> pystr \<Rightarrow> 'f world \<Rightarrow> http_result \<times> 'f world" where
  "chat app message w =
     (case rag_engine app of
        None \<Rightarrow> (HTTPException 503 (ustr ''RAG engine not initialized''), w)
      | Some eng \<Rightarrow>
          (case query eng message w of
             (Inl e, w') \<Rightarrow> (HTTPException 500 (ustr ''Error processing request: '' @ exn_str e), w')
           | (Inr (response, sources), w') \<Rightarrow> (ChatResponse response sources, w')))"

section \<open>Notions used in the statements and proofs\<close>

text \<open>A word as \<open>split\<close> produces it: not empty and free of whitespace.\<close>

definition word_ok :: "pystr \<Rightarrow> bool" where
  "word_ok w \<longleftrightarrow> w \<noteq> [] \<and> (\<forall>c \<in> set w. \<not> isspace c)"

text \<open>The slices \<open>xs[i:i + k]\<close> for \<open>i = 0, k, 2k, ...\<close> below the length of \<open>xs\<close>.\<close>

function windows :: "nat \<Rightarrow> 'a list \<Rightarrow> 'a list list" where
  "windows k xs = (if k = 0 \<or> xs = [] then [] else take k xs # windows k (drop k xs))"
  by pat_completeness auto
termination
  by (relation "measure (\<lambda>(k, xs). length xs)") auto

declare windows.simps [simp del]

text \<open>An engine and a world to evaluate the model on.\<close>

definition demo_engine :: engine where
  "demo_engine =
     \<lparr>pinecone_api_key = ustr ''pk'',
      openai_api_key = ustr ''ok'',
      index_name = ustr ''acme-tech-chatbot'',
      index = Some (ustr ''acme-tech-chatbot''),
      embedding_model = ustr ''text-embedding-3-small'',
      embedding_dimension = 1536,
      llm_model = ustr ''gpt-3.5-turbo'',
      data_dir = ustr ''data''\<rparr>"

definition demo_world :: "int world" where
  "demo_world =
     \<lparr>environ = (\<lambda>k. if k = ustr ''PINECONE_API_KEY'' then Some (ustr ''pk'')
                      else if k = ustr ''OPENAI_API_KEY'' then Some (ustr ''ok'') else None),
      data_path = ustr ''data'',
      data_files = Some [(ustr ''faq.md'', Some (ustr ''refunds within 30 days'')),
                         (ustr ''logo.png'', None)],
      pinecone = [(ustr ''acme-tech-chatbot'', [])],
      calls = [],
      fault = (\<lambda>history c. None),
      embedding_of = (\<lambda>history t. [int (length t)]),
      ranking = (\<lambda>history recs v.
                   map (\<lambda>r. \<lparr>match_id = vid r, match_score = 0,
                              match_text = meta_text r, match_source = meta_source r\<rparr>) recs),
      completion_of = (\<lambda>history messages. ustr ''answer''),
      hash_of = length\<rparr>"

text \<open>The same world with four records in the index.\<close>

definition demo_records :: "int vec_record list" where
  "demo_records =
     [\<lparr>vid = ustr ''faq.md_0'', vvalues = [1], meta_text = ustr ''refunds within 30 days'',
       meta_source = ustr ''faq.md'', meta_chunk_index = 0\<rparr>,
      \<lparr>vid = ustr ''faq.md_1'', vvalues = [2], meta_text = ustr ''contact support'',
       meta_source = ustr ''faq.md'', meta_chunk_index = 1\<rparr>,
      \<lparr>vid = ustr ''policy.txt_0'', vvalues = [3], meta_text = ustr ''returns need a receipt'',
       meta_source = ustr ''policy.txt'', meta_chunk_index = 0\<rparr>,
      \<lparr>vid = ustr ''policy.txt_1'', vvalues = [4], meta_text = ustr ''shipping is free'',
       meta_source = ustr ''policy.txt'', meta_chunk_index = 1\<rparr>]"

definition demo_indexed_world :: "int world" where
  "demo_indexed_world = demo_world\<lparr>pinecone := [(ustr ''acme-tech-chatbot'', demo_records)]\<rparr>"

text \<open>
  What \<open>describe_index_stats\<close> reports to \<open>initialize\<close>: the steps of \<open>initialize\<close>
  up to that call; \<open>None\<close> when \<open>initialize\<close> raises before it has the report.
\<close>

definition reported_at_initialize :: "engine \<Rightarrow> 'f world \<Rightarrow> index_stats option" where
  "reported_at_initialize self w =
     (case pc_list_indexes w of
        (Inl e, w1) \<Rightarrow> None
      | (Inr existing_indexes, w1) \<Rightarrow>
          (case (if index_name self \<notin> set existing_indexes then
                   pc_create_index (index_name self) (embedding_dimension self)
                     (ustr ''cosine'') (ustr ''aws'') (ustr ''us-east-1'') w1
                 else (Inr (), w1)) of
             (Inl e, w2) \<Rightarrow> None
           | (Inr u, w2) \<Rightarrow>
               (case pc_Index (index_name self) w2 of
                  (Inl e, w3) \<Rightarrow> None
                | (Inr handle, w3) \<Rightarrow>
                    (case describe_index_stats (Some handle) w3 of
                       (Inl e, w4) \<Rightarrow> None
                     | (Inr stats, w4) \<Rightarrow> Some stats))))"

text \<open>
  The batches of the outer loop of \<open>index_documents\<close>: batch \<open>k\<close> is the slice
  \<open>documents[100 * k : 100 * k + 100]\<close>, and \<open>world_before self documents k w\<close> is the
  world in which batch \<open>k\<close> is processed when the loop starts in \<open>w\<close>.
\<close>

definition batch_at :: "'a list \<Rightarrow> nat \<Rightarrow> 'a list" where
  "batch_at xs k = take 100 (drop (100 * k) xs)"

primrec world_before :: "engine \<Rightarrow> document list \<Rightarrow> nat \<Rightarrow> 'f world \<Rightarrow> 'f world" where
  "world_before self documents 0 w = w"
| "world_before self documents (Suc k) w =
     snd (process_batch self (batch_at documents k) (world_before self documents k w))"

text \<open>
  A call without the floating-point values it carries: the text of an embedding call,
  the ids of the records of an upsert call.  \<open>batch_shape\<close> lists the calls that
  processing one batch makes when nothing fails.
\<close>

datatype call_shape = EmbedOf pystr | UpsertOf "pystr list" | OtherCall

fun shape :: "'f call \<Rightarrow> call_shape" where
  "shape (EmbeddingsCreate model input) = EmbedOf input"
| "shape (Upsert name vectors) = UpsertOf (map vid vectors)"
| "shape c = OtherCall"

definition batch_shape :: "document list \<Rightarrow> call_shape list" where
  "batch_shape batch = map (\<lambda>doc. EmbedOf (doc_text doc)) batch @ [UpsertOf (map doc_id batch)]"

text \<open>The ids of the records the index \<open>name\<close> holds.\<close>

definition ids_of :: "'f world \<Rightarrow> pystr \<Rightarrow> pystr set" where
  "ids_of w name = (case map_of (pinecone w) name of None \<Rightarrow> {} | Some recs \<Rightarrow> vid ` set recs)"

text \<open>
  A data directory of 101 one-word files, and a world in which the call made after 101
  earlier calls raises: the first embedding call of the second batch.
\<close>

definition demo_many_files :: "(pystr \<times> pystr option) list" where
  "demo_many_files = map (\<lambda>i. (str_nat i @ ustr ''.md'', Some [97])) [0..<101]"

definition demo_documents :: "document list" where
  "demo_documents =
     map (\<lambda>i. \<lparr>doc_id = str_nat i @ ustr ''.md'' @ ustr ''_'' @ str_nat 0, doc_text = [97],
                doc_source = str_nat i @ ustr ''.md'', doc_chunk_index = 0\<rparr>) [0..<101]"

definition demo_failing_world :: "int world" where
  "demo_failing_world =
     demo_world\<lparr>data_files := Some demo_many_files,
                fault := (\<lambda>history c. if length history = 101
                                        then Some (ProviderError (ustr ''rate limit''))
                                        else None)\<rparr>"

text \<open>No call made after fewer than \<open>n\<close> earlier calls raises.\<close>

definition quiet_until :: "'f world \<Rightarrow> nat \<Rightarrow> bool" where
  "quiet_until w n \<longleftrightarrow> (\<forall>history c. length history < n \<longrightarrow> fault w history c = None)"

text \<open>
  The ids that a list of calls upserts, in order, and the ids of the records that each
  index of the world holds, in order.
\<close>

fun shape_ids :: "call_shape \<Rightarrow> pystr list" where
  "shape_ids (UpsertOf ids) = ids"
| "shape_ids s = []"

definition upserted_ids :: "'f call list \<Rightarrow> pystr list" where
  "upserted_ids cs = concat (map (\<lambda>c. shape_ids (shape c)) cs)"

definition stored_ids :: "'f world \<Rightarrow> (pystr \<times> pystr list) list" where
  "stored_ids w = map (\<lambda>(name, recs). (name, map vid recs)) (pinecone w)"

text \<open>The demo world after one run of \<open>index_documents\<close>.\<close>

definition demo_world_indexed :: "int world" where
  "demo_world_indexed =
     demo_world\<lparr>calls :=
         [EmbeddingsCreate (ustr ''text-embedding-3-small'') (ustr ''refunds within 30 days''),
          Upsert (ustr ''acme-tech-chatbot'')
            [\<lparr>vid = ustr ''faq.md_0'', vvalues = [22],
              meta_text = ustr ''refunds within 30 days'',
              meta_source = ustr ''faq.md'', meta_chunk_index = 0\<rparr>]],
       pinecone :=
         [(ustr ''acme-tech-chatbot'',
           [\<lparr>vid = ustr ''faq.md_0'', vvalues = [22],
             meta_text = ustr ''refunds within 30 days'',
             meta_source = ustr ''faq.md'', meta_chunk_index = 0\<rparr>])]\<rparr>"

section \<open>Splitting, joining and stripping\<close>

lemma py_split_words_ok: "w \<in> set (py_split s) \<Longrightarrow> word_ok w"
proof (induction s arbitrary: w rule: py_split.induct)
  case (1 s)
  show ?case
  proof (cases "dropWhile isspace s")
    case Nil
    with "1.prems" show ?thesis by (simp add: py_split.simps [of s])
  next
    case (Cons c cs)
    then have c: "\<not> isspace c"
      by (metis hd_dropWhile list.sel(1) list.distinct(1))
    from "1.prems" Cons have "w = c # takeWhile (\<lambda>x. \<not> isspace x) cs
        \<or> w \<in> set (py_split (dropWhile (\<lambda>x. \<not> isspace x) cs))"
      by (simp add: py_split.simps [of s])
    then show ?thesis
    proof
      assume "w = c # takeWhile (\<lambda>x. \<not> isspace x) cs"
      with c show ?thesis
        by (auto simp: word_ok_def dest: set_takeWhileD)
    next
      assume "w \<in> set (py_split (dropWhile (\<lambda>x. \<not> isspace x) cs))"
      with "1.IH" Cons show ?thesis by blast
    qed
  qed
qed

lemma py_split_word_append:
  assumes "word_ok w" and "s = [] \<or> isspace (hd s)"
  shows "py_split (w @ s) = w # py_split s"
proof -
  from assms(1) obtain c cs where w: "w = c # cs" and c: "\<not> isspace c"
    and cs: "\<forall>x \<in> set cs. \<not> isspace x"
    by (cases w) (auto simp: word_ok_def)
  have d: "dropWhile isspace (w @ s) = c # (cs @ s)"
    using w c by simp
  have t: "takeWhile (\<lambda>x. \<not> isspace x) (cs @ s) = cs"
    using cs assms(2) by (cases s) (auto simp: takeWhile_append2 takeWhile_eq_all_conv)
  have r: "dropWhile (\<lambda>x. \<not> isspace x) (cs @ s) = s"
    using cs assms(2) by (cases s) (auto simp: dropWhile_append2)
  show ?thesis
    by (subst py_split.simps) (simp add: c t r w)
qed

lemma py_split_Nil: "py_split [] = []"
  by (simp add: py_split.simps)

lemma py_split_space: "isspace c \<Longrightarrow> py_split (c # s) = py_split s"
  by (subst py_split.simps, subst (2) py_split.simps) simp

lemma py_split_join:
  "\<forall>w \<in> set ws. word_ok w \<Longrightarrow> py_split (py_join [32] ws) = ws"
proof (induction "[32::nat]" ws rule: py_join.induct)
  case 1
  then show ?case by (simp add: py_split_Nil)
next
  case (2 p)
  then show ?case
    using py_split_word_append [of p "[]"] by (simp add: py_split_Nil)
next
  case (3 p q ps)
  have sp: "isspace 32" by (simp add: isspace_def)
  from 3 have "py_split (p @ 32 # py_join [32] (q # ps)) = p # py_split (32 # py_join [32] (q # ps))"
    using py_split_word_append [of p "32 # py_join [32] (q # ps)"] sp by simp
  with 3 sp show ?case by (simp add: py_split_space)
qed


lemma py_join_ends:
  "ws \<noteq> [] \<Longrightarrow> \<forall>w \<in> set ws. word_ok w \<Longrightarrow>
     py_join [32] ws \<noteq> [] \<and> \<not> isspace (hd (py_join [32] ws)) \<and> \<not> isspace (last (py_join [32] ws))"
proof (induction "[32::nat]" ws rule: py_join.induct)
  case 1
  then show ?case by simp
next
  case (2 p)
  then show ?case by (auto simp: word_ok_def)
next
  case (3 p q ps)
  then have "py_join [32] (q # ps) \<noteq> []" and "\<not> isspace (last (py_join [32] (q # ps)))"
    by simp_all
  moreover from 3 have "p \<noteq> []" and "\<not> isspace (hd p)"
    by (auto simp: word_ok_def)
  ultimately show ?case by simp
qed

lemma py_strip_id:
  assumes "s \<noteq> []" and "\<not> isspace (hd s)" and "\<not> isspace (last s)"
  shows "py_strip s = s"
proof -
  from assms have "dropWhile isspace s = s"
    by (cases s) auto
  moreover from assms have "dropWhile isspace (rev s) = rev s"
    by (cases "rev s") (auto simp: hd_rev)
  ultimately show ?thesis by (simp add: py_strip_def)
qed

lemma py_strip_join:
  "ws \<noteq> [] \<Longrightarrow> \<forall>w \<in> set ws. word_ok w \<Longrightarrow> py_strip (py_join [32] ws) = py_join [32] ws"
  using py_join_ends [of ws] by (simp add: py_strip_id)

lemma windows_Nil [simp]: "windows k [] = []"
  by (simp add: windows.simps)

lemma chunk_loop_windows:
  "\<forall>w \<in> set words. word_ok w \<Longrightarrow>
     chunk_loop words k i chunks = chunks @ map (py_join [32]) (windows k (drop i words))"
proof (induction words k i chunks rule: chunk_loop.induct)
  case (1 words k i chunks)
  show ?case
  proof (cases "k = 0 \<or> length words \<le> i")
    case True
    then show ?thesis
      by (auto simp: chunk_loop.simps [of words k i] windows.simps [of k])
  next
    case False
    let ?win = "take k (drop i words)"
    from False have ne: "?win \<noteq> []" by simp
    have ok: "\<forall>w \<in> set ?win. word_ok w"
      using "1.prems" by (meson in_set_dropD in_set_takeD)
    have strip: "py_strip (py_join [32] ?win) = py_join [32] ?win"
      using ne ok by (rule py_strip_join)
    have nonempty: "py_join [32] ?win \<noteq> []"
      using py_join_ends [OF ne ok] by simp
    have "chunk_loop words k i chunks =
        chunk_loop words k (i + k) (chunks @ [py_join [32] ?win])"
      using False strip nonempty by (simp add: chunk_loop.simps [of words k i] Let_def)
    also have "\<dots> = (chunks @ [py_join [32] ?win]) @ map (py_join [32]) (windows k (drop (i + k) words))"
      using "1.IH" [OF False refl] "1.prems" strip nonempty by simp
    also have "\<dots> = chunks @ map (py_join [32]) (windows k (drop i words))"
      using False by (simp add: windows.simps [of k "drop i words"] add.commute)
    finally show ?thesis .
  qed
qed

lemma concat_windows: "0 < k \<Longrightarrow> concat (windows k xs) = xs"
proof (induction k xs rule: windows.induct)
  case (1 k xs)
  show ?case
  proof (cases "xs = []")
    case True
    then show ?thesis by simp
  next
    case False
    with 1 show ?thesis by (simp add: windows.simps [of k xs])
  qed
qed

lemma windows_bound: "w \<in> set (windows k xs) \<Longrightarrow> w \<noteq> [] \<and> length w \<le> k"
proof (induction k xs rule: windows.induct)
  case (1 k xs)
  then show ?case
    by (cases "k = 0 \<or> xs = []") (auto simp: windows.simps [of k xs])
qed

lemma windows_set: "w \<in> set (windows k xs) \<Longrightarrow> set w \<subseteq> set xs"
proof (induction k xs rule: windows.induct)
  case (1 k xs)
  then show ?case
    by (cases "k = 0 \<or> xs = []") (auto simp: windows.simps [of k xs] dest: in_set_takeD in_set_dropD)
qed

lemma ceil_div_step: "0 < k \<Longrightarrow> 0 < n \<Longrightarrow> (n + k - 1) div k = Suc ((n - k + k - 1) div k)"
proof (cases "k \<le> n")
  case True
  assume k: "0 < k" and n: "0 < n"
  obtain m where m: "n = Suc m" using n by (cases n) auto
  have "(n + k - 1) div k = (m + k) div k" by (simp add: m)
  also have "\<dots> = Suc (m div k)" using k by (simp only: div_add_self2)
  also have "m = n - k + k - 1" using True m by simp
  finally show ?thesis .
next
  case False
  assume k: "0 < k" and n: "0 < n"
  from False have a: "n - k + k - 1 = k - 1" by simp
  have "k \<le> n + k - 1" "n + k - 1 < 2 * k" using False n by simp_all
  then have "(n + k - 1) div k = 1"
    by (intro div_nat_eqI) simp_all
  moreover have "(k - 1) div k = 0" using k by simp
  ultimately show ?thesis using a by simp
qed

lemma length_windows: "0 < k \<Longrightarrow> length (windows k xs) = (length xs + k - 1) div k"
proof (induction k xs rule: windows.induct)
  case (1 k xs)
  show ?case
  proof (cases "xs = []")
    case True
    with "1.prems" show ?thesis by simp
  next
    case False
    then have pos: "0 < length xs" by simp
    have "length (windows k xs) = Suc ((length xs - k + k - 1) div k)"
      using False "1.prems" "1.IH" by (simp add: windows.simps [of k xs])
    also have "\<dots> = (length xs + k - 1) div k"
      using ceil_div_step [OF "1.prems" pos] by simp
    finally show ?thesis .
  qed
qed

lemma windows_butlast: "w \<in> set (butlast (windows k xs)) \<Longrightarrow> length w = k"
proof (induction k xs rule: windows.induct)
  case (1 k xs)
  show ?case
  proof (cases "k = 0 \<or> xs = []")
    case True
    with "1.prems" show ?thesis by (simp add: windows.simps [of k xs])
  next
    case False
    show ?thesis
    proof (cases "windows k (drop k xs) = []")
      case True
      with "1.prems" False show ?thesis by (simp add: windows.simps [of k xs])
    next
      case ne: False
      then have "drop k xs \<noteq> []" by (auto simp: windows.simps [of k "drop k xs"])
      then have "k \<le> length xs" by simp
      with "1.prems" "1.IH" False ne show ?thesis
        by (auto simp: windows.simps [of k xs])
    qed
  qed
qed


section \<open>The chunker\<close>

lemma chunk_text_windows:
  assumes "0 < chunk_size"
  shows "chunk_text self text chunk_size =
           Inr (map (py_join [32]) (windows (nat chunk_size) (py_split text)))"
proof -
  have "\<forall>w \<in> set (py_split text). word_ok w"
    by (simp add: py_split_words_ok)
  then have "chunk_loop (py_split text) (nat chunk_size) 0 [] =
      map (py_join [32]) (windows (nat chunk_size) (py_split text))"
    by (simp add: chunk_loop_windows)
  with assms show ?thesis
    by (simp add: chunk_text_def)
qed

lemma windows_words_ok:
  assumes "win \<in> set (windows k (py_split text))"
  shows "\<forall>w \<in> set win. word_ok w"
  using windows_set [OF assms] py_split_words_ok by blast

lemma split_join_window:
  "win \<in> set (windows k (py_split text)) \<Longrightarrow> py_split (py_join [32] win) = win"
  by (rule py_split_join) (rule windows_words_ok)

lemma map_split_join_windows:
  "map (\<lambda>win. py_split (py_join [32] win)) (windows k (py_split text)) = windows k (py_split text)"
  by (rule map_idI) (rule split_join_window)

text \<open>
  C1 (as amended).  For every text that holds at least one word and every positive
  \<open>chunk_size\<close>, \<open>chunk_text\<close> returns a non-empty list of segments; splitting each
  segment on whitespace and concatenating the word lists gives back the words of the
  text, in order; and no segment has more than \<open>chunk_size\<close> words.
\<close>

theorem chunk_text_preserves_words:
  assumes "py_split text \<noteq> []" and "0 < chunk_size"
  shows "\<exists>segs. chunk_text self text chunk_size = Inr segs \<and> segs \<noteq> [] \<and>
           concat (map py_split segs) = py_split text \<and>
           (\<forall>s \<in> set segs. int (length (py_split s)) \<le> chunk_size)"
proof -
  let ?k = "nat chunk_size"
  let ?ws = "windows ?k (py_split text)"
  let ?segs = "map (py_join [32]) ?ws"
  from assms(2) have k: "0 < ?k" by simp
  have res: "chunk_text self text chunk_size = Inr ?segs"
    using assms(2) by (rule chunk_text_windows)
  have ne: "?segs \<noteq> []"
    using assms(1) k by (simp add: windows.simps [of ?k "py_split text"])
  have "map py_split ?segs = ?ws"
    using map_split_join_windows [of ?k "text"] by (simp add: comp_def)
  then have words: "concat (map py_split ?segs) = py_split text"
    using concat_windows [OF k] by simp
  have bound: "\<forall>s \<in> set ?segs. int (length (py_split s)) \<le> chunk_size"
  proof
    fix s assume "s \<in> set ?segs"
    then obtain win where win: "win \<in> set ?ws" and s: "s = py_join [32] win" by auto
    from win have "length win \<le> ?k" using windows_bound by blast
    with s win assms(2) show "int (length (py_split s)) \<le> chunk_size"
      by (simp add: split_join_window)
  qed
  from res ne words bound show ?thesis by blast
qed

theorem chunk_text_preserves_words_witness:
  "py_split (ustr ''a b  c'') \<noteq> [] \<and> (0::int) < 2 \<and>
   (\<exists>segs. chunk_text demo_engine (ustr ''a b  c'') 2 = Inr segs \<and> segs \<noteq> [] \<and>
      concat (map py_split segs) = py_split (ustr ''a b  c'') \<and>
      (\<forall>s \<in> set segs. int (length (py_split s)) \<le> 2))"
proof -
  have ne: "py_split (ustr ''a b  c'') \<noteq> []"
    by (simp add: ustr_def py_split.simps isspace_def)
  have pos: "(0::int) < 2" by simp
  from ne pos chunk_text_preserves_words [OF ne pos, of demo_engine] show ?thesis
    by blast
qed

text \<open>
  C1 as stated fails: the text of one space is not empty, yet it holds no word and
  \<open>chunk_text\<close> returns the empty list.
\<close>

theorem chunk_text_blank_counterexample:
  "[32] \<noteq> ([] :: pystr) \<and> (0::int) < 512 \<and> chunk_text demo_engine [32] 512 = Inr []"
  by (simp add: chunk_text_def py_split.simps isspace_def chunk_loop.simps)

text \<open>
  C7.  The result of \<open>chunk_text\<close> is determined by the text and the chunk size alone:
  two calls with the same text and chunk size return the same segments (or raise the
  same error), whatever the state of the engine object they are called on.
\<close>

theorem chunk_text_deterministic:
  "chunk_text self text chunk_size = chunk_text self' text chunk_size"
  by (simp add: chunk_text_def)

text \<open>
  C10.  For every text that holds at least one word and every positive \<open>chunk_size\<close>,
  every segment but the last has exactly \<open>chunk_size\<close> words, and the number of
  segments is the word count divided by \<open>chunk_size\<close>, rounded up.
\<close>

theorem chunk_text_full_windows:
  assumes "py_split text \<noteq> []" and "0 < chunk_size"
  shows "\<exists>segs. chunk_text self text chunk_size = Inr segs \<and>
           (\<forall>s \<in> set (butlast segs). int (length (py_split s)) = chunk_size) \<and>
           int (length segs) = (int (length (py_split text)) + chunk_size - 1) div chunk_size"
proof -
  let ?k = "nat chunk_size"
  let ?ws = "windows ?k (py_split text)"
  let ?segs = "map (py_join [32]) ?ws"
  from assms(2) have k: "0 < ?k" by simp
  have res: "chunk_text self text chunk_size = Inr ?segs"
    using assms(2) by (rule chunk_text_windows)
  have full: "\<forall>s \<in> set (butlast ?segs). int (length (py_split s)) = chunk_size"
  proof
    fix s assume "s \<in> set (butlast ?segs)"
    then have "s \<in> set (map (py_join [32]) (butlast ?ws))" by (simp add: map_butlast)
    then obtain win where win: "win \<in> set (butlast ?ws)" and s: "s = py_join [32] win" by auto
    from win have inw: "win \<in> set ?ws" by (rule in_set_butlastD)
    from win have "length win = ?k" by (rule windows_butlast)
    with s inw assms(2) show "int (length (py_split s)) = chunk_size"
      by (simp add: split_join_window)
  qed
  have pos: "0 < length (py_split text)" using assms(1) by simp
  have "int (length ?segs) = int ((length (py_split text) + ?k - 1) div ?k)"
    using length_windows [OF k] by simp
  also have "\<dots> = (int (length (py_split text)) + chunk_size - 1) div chunk_size"
    using assms(2) pos by (simp add: zdiv_int of_nat_diff)
  finally have count: "int (length ?segs) =
      (int (length (py_split text)) + chunk_size - 1) div chunk_size" .
  from res full count show ?thesis by blast
qed

theorem chunk_text_full_windows_witness:
  "py_split (ustr ''a b  c'') \<noteq> [] \<and> (0::int) < 2 \<and>
   (\<exists>segs. chunk_text demo_engine (ustr ''a b  c'') 2 = Inr segs \<and>
      (\<forall>s \<in> set (butlast segs). int (length (py_split s)) = 2) \<and>
      int (length segs) = (int (length (py_split (ustr ''a b  c''))) + 2 - 1) div 2)"
proof -
  have ne: "py_split (ustr ''a b  c'') \<noteq> []"
    by (simp add: ustr_def py_split.simps isspace_def)
  have pos: "(0::int) < 2" by simp
  from ne pos chunk_text_full_windows [OF ne pos, of demo_engine] show ?thesis
    by blast
qed

section \<open>The policy document\<close>

lemma windows_two:
  assumes "k < length xs" and "length xs \<le> 2 * k"
  shows "windows k xs = [take k xs, drop k xs]"
proof -
  from assms have k: "0 < k" and ne: "xs \<noteq> []" by auto
  from assms have ne2: "drop k xs \<noteq> []" by simp
  have "windows k xs = take k xs # windows k (drop k xs)"
    using k ne by (simp add: windows.simps [of k xs])
  also have "windows k (drop k xs) = take k (drop k xs) # windows k (drop k (drop k xs))"
    using k ne2 by (simp add: windows.simps [of k "drop k xs"])
  also have "take k (drop k xs) = drop k xs" using assms by simp
  also have "drop k (drop k xs) = []" using assms by simp
  finally show ?thesis by simp
qed

lemma py_split_repeated_word:
  "py_split (concat (replicate n [97, 32])) = replicate n [97]"
proof (induction n)
  case 0
  then show ?case by (simp add: py_split_Nil)
next
  case (Suc n)
  have sp: "isspace 32" by (simp add: isspace_def)
  have ok: "word_ok [97]" by (simp add: word_ok_def isspace_def)
  have "py_split ([97] @ 32 # concat (replicate n [97, 32])) =
      [97] # py_split (32 # concat (replicate n [97, 32]))"
    using ok sp by (intro py_split_word_append) simp_all
  with Suc sp show ?case by (simp add: py_split_space)
qed

text \<open>
  C4.  For a data directory that holds the one document \<open>policy.txt\<close> whose content
  has exactly 600 words, \<open>chunk_text\<close> with the default chunk size of 512 returns two
  chunks, of 512 and of 88 words, and the document loop of \<open>index_documents\<close> gives
  them the ids \<open>policy.txt_0\<close> and \<open>policy.txt_1\<close>; these two documents are what the
  batch loop then embeds and upserts.
\<close>

theorem policy_document_two_chunks:
  assumes "length (py_split content) = 600"
    and "data_files w = Some [(ustr ''policy.txt'', Some content)]"
  shows "\<exists>c0 c1 d0 d1.
           chunk_text self content 512 = Inr [c0, c1] \<and>
           length (py_split c0) = 512 \<and> length (py_split c1) = 88 \<and>
           read_files self [(ustr ''policy.txt'', Some content)] [] = Inr [d0, d1] \<and>
           doc_id d0 = ustr ''policy.txt_0'' \<and> doc_text d0 = c0 \<and>
           doc_id d1 = ustr ''policy.txt_1'' \<and> doc_text d1 = c1 \<and>
           index_documents self w = batch_loop self [d0, d1] 0 w"
proof -
  let ?ws = "py_split content"
  let ?c0 = "py_join [32] (take 512 ?ws)"
  let ?c1 = "py_join [32] (drop 512 ?ws)"
  let ?name = "ustr ''policy.txt''"
  let ?d0 = "\<lparr>doc_id = ?name @ ustr ''_'' @ str_nat 0, doc_text = ?c0,
              doc_source = ?name, doc_chunk_index = 0\<rparr>"
  let ?d1 = "\<lparr>doc_id = ?name @ ustr ''_'' @ str_nat 1, doc_text = ?c1,
              doc_source = ?name, doc_chunk_index = 1\<rparr>"
  have win: "windows 512 ?ws = [take 512 ?ws, drop 512 ?ws]"
    using assms(1) by (intro windows_two) simp_all
  have chunks: "chunk_text self content 512 = Inr [?c0, ?c1]"
    using chunk_text_windows [of 512 self content] win by simp
  have in0: "take 512 ?ws \<in> set (windows 512 ?ws)" and in1: "drop 512 ?ws \<in> set (windows 512 ?ws)"
    using win by simp_all
  have n0: "length (py_split ?c0) = 512"
    using split_join_window [OF in0] assms(1) by simp
  have n1: "length (py_split ?c1) = 88"
    using split_join_window [OF in1] assms(1) by simp
  have suffix: "py_endswith ?name (ustr ''.txt'')"
    by (simp add: py_endswith_def ustr_def)
  have enum: "enumerate 0 [?c0, ?c1] = [(0, ?c0), (1, ?c1)]"
    by (simp add: enumerate_simps)
  have docs: "read_files self [(?name, Some content)] [] = Inr [?d0, ?d1]"
    using suffix chunks enum by simp
  have id0: "doc_id ?d0 = ustr ''policy.txt_0''"
    by (simp add: ustr_def str_nat.simps)
  have id1: "doc_id ?d1 = ustr ''policy.txt_1''"
    by (simp add: ustr_def str_nat.simps)
  have run: "index_documents self w = batch_loop self [?d0, ?d1] 0 w"
    using assms(2) docs by (simp add: index_documents_def)
  have t0: "doc_text ?d0 = ?c0" and t1: "doc_text ?d1 = ?c1" by simp_all
  from chunks n0 n1 docs id0 id1 t0 t1 run show ?thesis by blast
qed

theorem policy_document_two_chunks_witness:
  "length (py_split (concat (replicate 600 [97, 32]))) = 600 \<and>
   data_files (demo_world\<lparr>data_files :=
       Some [(ustr ''policy.txt'', Some (concat (replicate 600 [97, 32])))]\<rparr>) =
     Some [(ustr ''policy.txt'', Some (concat (replicate 600 [97, 32])))] \<and>
   (\<exists>c0 c1 d0 d1.
      chunk_text demo_engine (concat (replicate 600 [97, 32])) 512 = Inr [c0, c1] \<and>
      length (py_split c0) = 512 \<and> length (py_split c1) = 88 \<and>
      read_files demo_engine [(ustr ''policy.txt'', Some (concat (replicate 600 [97, 32])))] [] =
        Inr [d0, d1] \<and>
      doc_id d0 = ustr ''policy.txt_0'' \<and> doc_text d0 = c0 \<and>
      doc_id d1 = ustr ''policy.txt_1'' \<and> doc_text d1 = c1 \<and>
      index_documents demo_engine
        (demo_world\<lparr>data_files :=
           Some [(ustr ''policy.txt'', Some (concat (replicate 600 [97, 32])))]\<rparr>) =
        batch_loop demo_engine [d0, d1] 0
          (demo_world\<lparr>data_files :=
             Some [(ustr ''policy.txt'', Some (concat (replicate 600 [97, 32])))]\<rparr>))"
proof -
  let ?content = "concat (replicate 600 [97::nat, 32])"
  let ?w = "demo_world\<lparr>data_files := Some [(ustr ''policy.txt'', Some ?content)]\<rparr>"
  have len: "length (py_split ?content) = 600"
    by (simp only: py_split_repeated_word length_replicate)
  have files: "data_files ?w = Some [(ustr ''policy.txt'', Some ?content)]"
    by simp
  from len files policy_document_two_chunks [OF len files, of demo_engine] show ?thesis
    by blast
qed

section \<open>Startup without credentials\<close>

text \<open>
  C8.  When \<open>PINECONE_API_KEY\<close> or \<open>OPENAI_API_KEY\<close> is missing from the environment,
  the constructor raises \<open>ValueError\<close> naming the first key that is missing or empty; the startup of the
  application raises the same error with no call made on OpenAI or Pinecone (the world
  is left as it was) and with \<open>rag_engine\<close> still unset, so startup fails before the
  application serves; a chat request against the unset engine is answered 503.
\<close>

theorem startup_without_credentials:
  assumes "environ w (ustr ''PINECONE_API_KEY'') = None \<or>
           environ w (ustr ''OPENAI_API_KEY'') = None"
  shows "\<exists>key. key \<in> {ustr ''PINECONE_API_KEY'', ustr ''OPENAI_API_KEY''} \<and>
           environ w key \<in> {None, Some []} \<and>
           RAGEngine_init w =
             Inl (ValueError (key @ ustr '' not found in environment variables'')) \<and>
           lifespan_startup app_initial w =
             (Inl (ValueError (key @ ustr '' not found in environment variables'')),
              app_initial, w) \<and>
           chat app_initial message w =
             (HTTPException 503 (ustr ''RAG engine not initialized''), w)"
proof (cases "environ w (ustr ''PINECONE_API_KEY'')")
  case None
  then have "RAGEngine_init w =
      Inl (ValueError (ustr ''PINECONE_API_KEY'' @ ustr '' not found in environment variables''))"
    by (simp add: RAGEngine_init_def ustr_def)
  with None show ?thesis
    by (intro exI [of _ "ustr ''PINECONE_API_KEY''"])
      (simp add: lifespan_startup_def chat_def app_initial_def)
next
  case (Some pk)
  with assms have ok: "environ w (ustr ''OPENAI_API_KEY'') = None" by simp
  show ?thesis
  proof (cases "pk = []")
    case True
    have "RAGEngine_init w =
        Inl (ValueError (ustr ''PINECONE_API_KEY'' @ ustr '' not found in environment variables''))"
      using Some True by (simp add: RAGEngine_init_def ustr_def)
    with Some True show ?thesis
      by (intro exI [of _ "ustr ''PINECONE_API_KEY''"])
        (simp add: lifespan_startup_def chat_def app_initial_def)
  next
    case False
    have "RAGEngine_init w =
        Inl (ValueError (ustr ''OPENAI_API_KEY'' @ ustr '' not found in environment variables''))"
      using Some False ok by (simp add: RAGEngine_init_def ustr_def)
    with ok show ?thesis
      by (intro exI [of _ "ustr ''OPENAI_API_KEY''"])
        (simp add: lifespan_startup_def chat_def app_initial_def)
  qed
qed

theorem startup_without_credentials_witness:
  "(environ (demo_world\<lparr>environ := Map.empty\<rparr>) (ustr ''PINECONE_API_KEY'') = None \<or>
    environ (demo_world\<lparr>environ := Map.empty\<rparr>) (ustr ''OPENAI_API_KEY'') = None) \<and>
   (\<exists>key. key \<in> {ustr ''PINECONE_API_KEY'', ustr ''OPENAI_API_KEY''} \<and>
      environ (demo_world\<lparr>environ := Map.empty\<rparr>) key \<in> {None, Some []} \<and>
      RAGEngine_init (demo_world\<lparr>environ := Map.empty\<rparr>) =
        Inl (ValueError (key @ ustr '' not found in environment variables'')) \<and>
      lifespan_startup app_initial (demo_world\<lparr>environ := Map.empty\<rparr>) =
        (Inl (ValueError (key @ ustr '' not found in environment variables'')),
         app_initial, demo_world\<lparr>environ := Map.empty\<rparr>) \<and>
      chat app_initial (ustr ''hello'') (demo_world\<lparr>environ := Map.empty\<rparr>) =
        (HTTPException 503 (ustr ''RAG engine not initialized''),
         demo_world\<lparr>environ := Map.empty\<rparr>))"
proof -
  let ?w = "demo_world\<lparr>environ := Map.empty\<rparr>"
  have missing: "environ ?w (ustr ''PINECONE_API_KEY'') = None \<or>
      environ ?w (ustr ''OPENAI_API_KEY'') = None"
    by simp
  from missing startup_without_credentials [OF missing, of "ustr ''hello''"] show ?thesis
    by blast
qed

section \<open>The calls of the service operations\<close>

lemma embeddings_create_world:
  "snd (embeddings_create model input w) = w\<lparr>calls := calls w @ [EmbeddingsCreate model input]\<rparr>"
  by (simp add: embeddings_create_def external_def split: option.splits)

lemma embeddings_create_Inr:
  "embeddings_create model input w = (Inr v, w') \<Longrightarrow> v = embedding_of w (calls w) input"
  by (auto simp: embeddings_create_def external_def split: option.splits)

lemma chat_completions_create_world:
  "snd (chat_completions_create model messages n w) =
     w\<lparr>calls := calls w @ [ChatCompletionsCreate model messages n]\<rparr>"
  by (simp add: chat_completions_create_def external_def split: option.splits)

lemma index_query_Inr:
  assumes "index_query handle vector top_k b w = (Inr matches, w')"
  shows "\<exists>name recs. handle = Some name \<and> map_of (pinecone w) name = Some recs \<and>
           matches = take top_k (ranking w (calls w) recs vector) \<and>
           w' = w\<lparr>calls := calls w @ [QueryIndex name vector top_k b]\<rparr>"
  using assms by (auto simp: index_query_def external_def split: option.splits)

lemma retrieve_relevant_chunks_Inr:
  assumes "retrieve_relevant_chunks self q top_k w = (Inr chunks, w')"
  shows "\<exists>name recs emb matches.
           index self = Some name \<and> map_of (pinecone w) name = Some recs \<and>
           emb = embedding_of w (calls w) q \<and>
           matches = take top_k (ranking w (calls w @ [EmbeddingsCreate (embedding_model self) q]) recs emb) \<and>
           chunks = map (\<lambda>m. \<lparr>r_text = match_text m, r_source = match_source m,
                               r_score = match_score m\<rparr>) matches \<and>
           w' = w\<lparr>calls := calls w @ [EmbeddingsCreate (embedding_model self) q,
                                       QueryIndex name emb top_k True]\<rparr>"
proof -
  from assms obtain emb w1 matches where
    e: "get_embedding self q w = (Inr emb, w1)" and
    m: "index_query (index self) emb top_k True w1 = (Inr matches, w')" and
    c: "chunks = map (\<lambda>m. \<lparr>r_text = match_text m, r_source = match_source m,
                            r_score = match_score m\<rparr>) matches"
    by (auto simp: retrieve_relevant_chunks_def split: prod.splits sum.splits)
  from e have emb: "emb = embedding_of w (calls w) q"
    by (simp add: get_embedding_def embeddings_create_Inr)
  from e have w1: "w1 = w\<lparr>calls := calls w @ [EmbeddingsCreate (embedding_model self) q]\<rparr>"
    using embeddings_create_world [of "embedding_model self" q w]
    by (simp add: get_embedding_def)
  from index_query_Inr [OF m] obtain name recs where
    "index self = Some name" "map_of (pinecone w1) name = Some recs"
    "matches = take top_k (ranking w1 (calls w1) recs emb)"
    "w' = w1\<lparr>calls := calls w1 @ [QueryIndex name emb top_k True]\<rparr>"
    by blast
  with w1 emb c show ?thesis by simp
qed

lemma generate_response_world:
  "snd (generate_response self q chunks w) =
     w\<lparr>calls := calls w @
        [ChatCompletionsCreate (llm_model self)
           [(ustr ''system'', ustr ''You are a helpful assistant for Acme Tech Solutions.''),
            (ustr ''user'', build_prompt (build_context chunks) q)] 500]\<rparr>"
  by (simp add: generate_response_def Let_def chat_completions_create_world)

lemma query_Inr:
  assumes "query self q w = (Inr (response, sources), w')"
  shows "\<exists>chunks w1. retrieve_relevant_chunks self q 3 w = (Inr chunks, w1) \<and>
           w' = snd (generate_response self q chunks w1) \<and>
           sources = py_list_set (hash_of w') (map r_source chunks)"
  using assms by (auto simp: query_def split: prod.splits sum.splits)

lemma py_list_set_distinct: "distinct (py_list_set h xs)"
  by (simp add: py_list_set_def)

lemma py_list_set_set: "set (py_list_set h xs) = set xs"
  by (simp add: py_list_set_def)

text \<open>
  C3.  When \<open>query\<close> returns, its list of sources holds every source of the retrieved
  chunks exactly once, in some order.  When no chunk was retrieved the list is empty,
  the context block is the empty string, and the prompt sent to the language model is
  the one built around the empty context.
\<close>

theorem query_sources_deduplicated:
  assumes "query self user_query w = (Inr (response, sources), w')"
  shows "\<exists>chunks w1.
           retrieve_relevant_chunks self user_query 3 w = (Inr chunks, w1) \<and>
           distinct sources \<and> set sources = r_source ` set chunks \<and>
           (if chunks = [] then
              sources = [] \<and> build_context chunks = [] \<and>
              calls w' = calls w1 @
                [ChatCompletionsCreate (llm_model self)
                   [(ustr ''system'', ustr ''You are a helpful assistant for Acme Tech Solutions.''),
                    (ustr ''user'', build_prompt [] user_query)] 500]
            else sources \<noteq> [])"
proof -
  from query_Inr [OF assms] obtain chunks w1 where
    r: "retrieve_relevant_chunks self user_query 3 w = (Inr chunks, w1)" and
    w': "w' = snd (generate_response self user_query chunks w1)" and
    s: "sources = py_list_set (hash_of w') (map r_source chunks)"
    by blast
  have d: "distinct sources" using s by (simp add: py_list_set_distinct)
  have e: "set sources = r_source ` set chunks" using s by (simp add: py_list_set_set)
  have c: "calls w' = calls w1 @
      [ChatCompletionsCreate (llm_model self)
         [(ustr ''system'', ustr ''You are a helpful assistant for Acme Tech Solutions.''),
          (ustr ''user'', build_prompt (build_context chunks) user_query)] 500]"
    using w' by (simp add: generate_response_world)
  show ?thesis
  proof (cases "chunks = []")
    case True
    then have "build_context chunks = []" by (simp add: build_context_def)
    moreover from True e have "sources = []" by simp
    ultimately show ?thesis using r d e c True by auto
  next
    case False
    with e have "sources \<noteq> []" by auto
    with r d e False show ?thesis by auto
  qed
qed


theorem query_sources_deduplicated_witness:
  "query demo_engine (ustr ''refunds?'') demo_indexed_world =
     (Inr (ustr ''answer'', [ustr ''faq.md'', ustr ''policy.txt'']),
      snd (query demo_engine (ustr ''refunds?'') demo_indexed_world)) \<and>
   (\<exists>chunks w1.
      retrieve_relevant_chunks demo_engine (ustr ''refunds?'') 3 demo_indexed_world =
        (Inr chunks, w1) \<and>
      distinct [ustr ''faq.md'', ustr ''policy.txt''] \<and>
      set [ustr ''faq.md'', ustr ''policy.txt''] = r_source ` set chunks \<and>
      (if chunks = [] then
         [ustr ''faq.md'', ustr ''policy.txt''] = [] \<and> build_context chunks = [] \<and>
         calls (snd (query demo_engine (ustr ''refunds?'') demo_indexed_world)) = calls w1 @
           [ChatCompletionsCreate (llm_model demo_engine)
              [(ustr ''system'', ustr ''You are a helpful assistant for Acme Tech Solutions.''),
               (ustr ''user'', build_prompt [] (ustr ''refunds?''))] 500]
       else [ustr ''faq.md'', ustr ''policy.txt''] \<noteq> []))"
proof -
  have run: "query demo_engine (ustr ''refunds?'') demo_indexed_world =
      (Inr (ustr ''answer'', [ustr ''faq.md'', ustr ''policy.txt'']),
       snd (query demo_engine (ustr ''refunds?'') demo_indexed_world))"
    by (rule prod_eqI)
      (simp_all add: query_def retrieve_relevant_chunks_def get_embedding_def
        embeddings_create_def external_def index_query_def generate_response_def
        chat_completions_create_def demo_engine_def demo_indexed_world_def demo_world_def
        demo_records_def py_list_set_def ustr_def Let_def)
  from run query_sources_deduplicated [OF run] show ?thesis
    by blast
qed

text \<open>
  C9.  A \<open>query\<close> that returns has made exactly three calls: the embedding of the
  question, one Pinecone query with \<open>top_k = 3\<close>, and one chat completion.  The
  retrieved chunks are the first three (or fewer) records of the store's ranking, in
  that order, and the prompt holds the context block that joins, in the same order, each
  chunk's text under the header \<open>[Source: ...]\<close> naming its source.
\<close>

theorem query_top3_context:
  assumes "query self user_query w = (Inr (response, sources), w')"
  shows "\<exists>name recs emb chunks.
           index self = Some name \<and> map_of (pinecone w) name = Some recs \<and>
           emb = embedding_of w (calls w) user_query \<and>
           chunks =
             map (\<lambda>m. \<lparr>r_text = match_text m, r_source = match_source m, r_score = match_score m\<rparr>)
               (take 3 (ranking w (calls w @ [EmbeddingsCreate (embedding_model self) user_query])
                          recs emb)) \<and>
           length chunks \<le> 3 \<and>
           calls w' = calls w @
             [EmbeddingsCreate (embedding_model self) user_query,
              QueryIndex name emb 3 True,
              ChatCompletionsCreate (llm_model self)
                [(ustr ''system'', ustr ''You are a helpful assistant for Acme Tech Solutions.''),
                 (ustr ''user'',
                  build_prompt
                    (py_join [10, 10]
                       (map (\<lambda>chunk. ustr ''[Source: '' @ r_source chunk @ ustr '']'' @ [10] @
                                      r_text chunk) chunks))
                    user_query)] 500]"
proof -
  from query_Inr [OF assms] obtain chunks w1 where
    r: "retrieve_relevant_chunks self user_query 3 w = (Inr chunks, w1)" and
    w': "w' = snd (generate_response self user_query chunks w1)"
    by blast
  from retrieve_relevant_chunks_Inr [OF r] obtain name recs emb where
    n: "index self = Some name" "map_of (pinecone w) name = Some recs"
       "emb = embedding_of w (calls w) user_query" and
    c: "chunks =
         map (\<lambda>m. \<lparr>r_text = match_text m, r_source = match_source m, r_score = match_score m\<rparr>)
           (take 3 (ranking w (calls w @ [EmbeddingsCreate (embedding_model self) user_query])
                      recs emb))" and
    w1: "w1 = w\<lparr>calls := calls w @ [EmbeddingsCreate (embedding_model self) user_query,
                                      QueryIndex name emb 3 True]\<rparr>"
    by blast
  from c have len: "length chunks \<le> 3" by simp
  have "calls w' = calls w1 @
      [ChatCompletionsCreate (llm_model self)
         [(ustr ''system'', ustr ''You are a helpful assistant for Acme Tech Solutions.''),
          (ustr ''user'', build_prompt (build_context chunks) user_query)] 500]"
    using w' by (simp add: generate_response_world)
  with w1 have calls: "calls w' = calls w @
      [EmbeddingsCreate (embedding_model self) user_query,
       QueryIndex name emb 3 True,
       ChatCompletionsCreate (llm_model self)
         [(ustr ''system'', ustr ''You are a helpful assistant for Acme Tech Solutions.''),
          (ustr ''user'',
           build_prompt
             (py_join [10, 10]
                (map (\<lambda>chunk. ustr ''[Source: '' @ r_source chunk @ ustr '']'' @ [10] @
                               r_text chunk) chunks))
             user_query)] 500]"
    by (simp add: build_context_def)
  from n c len calls show ?thesis by blast
qed

theorem query_top3_context_witness:
  "query demo_engine (ustr ''refunds?'') demo_indexed_world =
     (Inr (ustr ''answer'', [ustr ''faq.md'', ustr ''policy.txt'']),
      snd (query demo_engine (ustr ''refunds?'') demo_indexed_world)) \<and>
   (\<exists>name recs emb chunks.
      index demo_engine = Some name \<and> map_of (pinecone demo_indexed_world) name = Some recs \<and>
      emb = embedding_of demo_indexed_world (calls demo_indexed_world) (ustr ''refunds?'') \<and>
      chunks =
        map (\<lambda>m. \<lparr>r_text = match_text m, r_source = match_source m, r_score = match_score m\<rparr>)
          (take 3 (ranking demo_indexed_world
                     (calls demo_indexed_world @
                        [EmbeddingsCreate (embedding_model demo_engine) (ustr ''refunds?'')])
                     recs emb)) \<and>
      length chunks \<le> 3 \<and>
      calls (snd (query demo_engine (ustr ''refunds?'') demo_indexed_world)) =
        calls demo_indexed_world @
        [EmbeddingsCreate (embedding_model demo_engine) (ustr ''refunds?''),
         QueryIndex name emb 3 True,
         ChatCompletionsCreate (llm_model demo_engine)
           [(ustr ''system'', ustr ''You are a helpful assistant for Acme Tech Solutions.''),
            (ustr ''user'',
             build_prompt
               (py_join [10, 10]
                  (map (\<lambda>chunk. ustr ''[Source: '' @ r_source chunk @ ustr '']'' @ [10] @
                                 r_text chunk) chunks))
               (ustr ''refunds?''))] 500])"
proof -
  have run: "query demo_engine (ustr ''refunds?'') demo_indexed_world =
      (Inr (ustr ''answer'', [ustr ''faq.md'', ustr ''policy.txt'']),
       snd (query demo_engine (ustr ''refunds?'') demo_indexed_world))"
    by (rule prod_eqI)
      (simp_all add: query_def retrieve_relevant_chunks_def get_embedding_def
        embeddings_create_def external_def index_query_def generate_response_def
        chat_completions_create_def demo_engine_def demo_indexed_world_def demo_world_def
        demo_records_def py_list_set_def ustr_def Let_def)
  from run query_top3_context [OF run] show ?thesis
    by blast
qed

section \<open>Initialisation of a populated index\<close>

lemma pc_list_indexes_cases:
  obtains e where "pc_list_indexes w = (Inl e, w\<lparr>calls := calls w @ [ListIndexes]\<rparr>)"
  | "pc_list_indexes w = (Inr (map fst (pinecone w)), w\<lparr>calls := calls w @ [ListIndexes]\<rparr>)"
  by (cases "fault w (calls w) ListIndexes") (auto simp: pc_list_indexes_def external_def)

lemma pc_create_index_Inr:
  assumes "pc_create_index name d m c r w = (Inr u, w')"
  shows "map_of (pinecone w) name = None \<and>
         w' = w\<lparr>calls := calls w @ [CreateIndex name d m c r],
                 pinecone := pinecone w @ [(name, [])]\<rparr>"
  using assms by (auto simp: pc_create_index_def external_def split: option.splits)

lemma pc_Index_Inr:
  assumes "pc_Index name w = (Inr handle, w')"
  shows "handle = name \<and> w' = w\<lparr>calls := calls w @ [OpenIndex name]\<rparr>"
  using assms by (auto simp: pc_Index_def external_def split: option.splits)

lemma describe_index_stats_Inr:
  assumes "describe_index_stats (Some name) w = (Inr stats, w')"
  shows "\<exists>recs. map_of (pinecone w) name = Some recs \<and> total_vector_count stats = length recs \<and>
           w' = w\<lparr>calls := calls w @ [DescribeIndexStats name]\<rparr>"
  using assms by (auto simp: describe_index_stats_def external_def split: option.splits)

lemma map_of_append_new:
  "map_of al k = None \<Longrightarrow> map_of (al @ [(k, v)]) k = Some v"
  by (simp add: map_add_def)

text \<open>
  C2.  If the report that \<open>describe_index_stats\<close> gives \<open>initialize\<close> has a
  \<open>total_vector_count\<close> greater than zero, then \<open>initialize\<close> returns having made three
  calls only: it listed the indexes, opened the index and asked for its statistics.  It
  made no embedding call and no upsert call, and the records of every index (and
  everything else in the world) are as they were.
\<close>

theorem initialize_skips_populated_index:
  assumes "reported_at_initialize self w = Some stats" and "0 < total_vector_count stats"
  shows "initialize self w =
           (Inr (), self\<lparr>index := Some (index_name self)\<rparr>,
            w\<lparr>calls := calls w @ [ListIndexes, OpenIndex (index_name self),
                                   DescribeIndexStats (index_name self)]\<rparr>)"
proof -
  let ?name = "index_name self"
  let ?w1 = "w\<lparr>calls := calls w @ [ListIndexes]\<rparr>"
  have l: "pc_list_indexes w = (Inr (map fst (pinecone w)), ?w1)"
    using assms(1) by (rule_tac pc_list_indexes_cases [of w]) (simp_all add: reported_at_initialize_def)
  show ?thesis
  proof (cases "?name \<in> set (map fst (pinecone w))")
    case True
    from assms(1) l True obtain handle w3 w4 where
      o: "pc_Index ?name ?w1 = (Inr handle, w3)" and
      d: "describe_index_stats (Some handle) w3 = (Inr stats, w4)"
      by (auto simp: reported_at_initialize_def split: prod.splits sum.splits)
    from pc_Index_Inr [OF o] have h: "handle = ?name"
      and w3: "w3 = ?w1\<lparr>calls := calls ?w1 @ [OpenIndex ?name]\<rparr>" by simp_all
    from describe_index_stats_Inr [OF d [unfolded h]]
    have w4: "w4 = w3\<lparr>calls := calls w3 @ [DescribeIndexStats ?name]\<rparr>" by blast
    from l True o d assms(2) h w3 w4 show ?thesis
      by (simp add: initialize_def Let_def)
  next
    case False
    from assms(1) l False obtain u w2 handle w3 w4 where
      c: "pc_create_index ?name (embedding_dimension self) (ustr ''cosine'') (ustr ''aws'')
            (ustr ''us-east-1'') ?w1 = (Inr u, w2)" and
      o: "pc_Index ?name w2 = (Inr handle, w3)" and
      d: "describe_index_stats (Some handle) w3 = (Inr stats, w4)"
      by (auto simp: reported_at_initialize_def split: prod.splits sum.splits)
    from pc_create_index_Inr [OF c] have none: "map_of (pinecone w) ?name = None"
      and w2: "pinecone w2 = pinecone w @ [(?name, [])]" by simp_all
    from pc_Index_Inr [OF o] have h: "handle = ?name" and w3: "pinecone w3 = pinecone w2"
      by simp_all
    from describe_index_stats_Inr [OF d [unfolded h]] obtain recs where
      "map_of (pinecone w3) ?name = Some recs" "total_vector_count stats = length recs"
      by blast
    with w3 w2 map_of_append_new [OF none, of "[]"] have "total_vector_count stats = 0"
      by simp
    with assms(2) show ?thesis by simp
  qed
qed


theorem initialize_skips_populated_index_witness:
  "reported_at_initialize demo_engine demo_indexed_world = Some \<lparr>total_vector_count = 4\<rparr> \<and>
   0 < total_vector_count \<lparr>total_vector_count = 4\<rparr> \<and>
   initialize demo_engine demo_indexed_world =
     (Inr (), demo_engine\<lparr>index := Some (index_name demo_engine)\<rparr>,
      demo_indexed_world\<lparr>calls := calls demo_indexed_world @
        [ListIndexes, OpenIndex (index_name demo_engine),
         DescribeIndexStats (index_name demo_engine)]\<rparr>)"
proof -
  have rep: "reported_at_initialize demo_engine demo_indexed_world =
      Some \<lparr>total_vector_count = 4\<rparr>"
    by (simp add: reported_at_initialize_def pc_list_indexes_def pc_Index_def
        describe_index_stats_def external_def demo_engine_def demo_indexed_world_def
        demo_world_def demo_records_def ustr_def)
  have pos: "0 < total_vector_count \<lparr>total_vector_count = 4\<rparr>" by simp
  from rep pos initialize_skips_populated_index [OF rep pos] show ?thesis
    by blast
qed

section \<open>Upserting\<close>

lemma upsert_one_ids: "vid ` set (upsert_one r recs) = insert (vid r) (vid ` set recs)"
  by (induction recs) auto

lemma upsert_one_known: "vid r \<in> vid ` set recs \<Longrightarrow> map vid (upsert_one r recs) = map vid recs"
  by (induction recs) auto

lemma upsert_all_ids: "vid ` set (upsert_all vectors recs) = vid ` set vectors \<union> vid ` set recs"
  unfolding upsert_all_def
  by (induction vectors arbitrary: recs) (auto simp: upsert_one_ids)

lemma upsert_all_known:
  "vid ` set vectors \<subseteq> vid ` set recs \<Longrightarrow> map vid (upsert_all vectors recs) = map vid recs"
  unfolding upsert_all_def
proof (induction vectors arbitrary: recs)
  case Nil
  then show ?case by simp
next
  case (Cons r vectors)
  then have "vid ` set vectors \<subseteq> vid ` set (upsert_one r recs)"
    by (auto simp: upsert_one_ids)
  then have "map vid (foldl (\<lambda>acc r. upsert_one r acc) (upsert_one r recs) vectors) =
      map vid (upsert_one r recs)"
    by (rule Cons.IH)
  with Cons.prems show ?case by (simp add: upsert_one_known)
qed

lemma upsert_Inr:
  assumes "upsert handle vectors w = (Inr u, w')"
  shows "\<exists>name recs. handle = Some name \<and> map_of (pinecone w) name = Some recs \<and>
           w' = w\<lparr>calls := calls w @ [Upsert name vectors],
                   pinecone := AList.update name (upsert_all vectors recs) (pinecone w)\<rparr>"
  using assms by (auto simp: upsert_def external_def split: option.splits)

lemma upsert_Inl:
  assumes "upsert handle vectors w = (Inl e, w')"
  shows "w' = w \<or> (\<exists>name. w' = w\<lparr>calls := calls w @ [Upsert name vectors]\<rparr>)"
  using assms by (auto simp: upsert_def external_def split: option.splits)

section \<open>One batch\<close>

lemma get_embedding_world:
  "snd (get_embedding self t w) = w\<lparr>calls := calls w @ [EmbeddingsCreate (embedding_model self) t]\<rparr>"
  by (simp add: get_embedding_def embeddings_create_world)

lemma embed_batch_Inr:
  "embed_batch self batch vectors w = (Inr vectors', w') \<Longrightarrow>
     \<exists>new. w' = w\<lparr>calls := calls w @ new\<rparr> \<and>
           map shape new = map (\<lambda>doc. EmbedOf (doc_text doc)) batch \<and>
           map vid vectors' = map vid vectors @ map doc_id batch"
proof (induction batch arbitrary: vectors w)
  case Nil
  then show ?case by (auto intro: exI [of _ "[]"])
next
  case (Cons doc batch)
  let ?c = "EmbeddingsCreate (embedding_model self) (doc_text doc)"
  let ?w1 = "w\<lparr>calls := calls w @ [?c]\<rparr>"
  from Cons.prems obtain embedding w1 where
    g: "get_embedding self (doc_text doc) w = (Inr embedding, w1)" and
    r: "embed_batch self batch
          (vectors @ [\<lparr>vid = doc_id doc, vvalues = embedding, meta_text = doc_text doc,
                       meta_source = doc_source doc, meta_chunk_index = doc_chunk_index doc\<rparr>])
          w1 = (Inr vectors', w')"
    by (auto split: prod.splits sum.splits)
  from g have w1: "w1 = ?w1" using get_embedding_world [of self "doc_text doc" w] by simp
  from Cons.IH [OF r] obtain new where
    "w' = w1\<lparr>calls := calls w1 @ new\<rparr>"
    "map shape new = map (\<lambda>doc. EmbedOf (doc_text doc)) batch"
    "map vid vectors' = map vid vectors @ doc_id doc # map doc_id batch"
    by auto
  with w1 show ?case
    by (intro exI [of _ "?c # new"]) simp
qed

lemma embed_batch_Inl:
  "embed_batch self batch vectors w = (Inl e, w') \<Longrightarrow>
     \<exists>new j. w' = w\<lparr>calls := calls w @ new\<rparr> \<and> 0 < j \<and> j \<le> length batch \<and>
             map shape new = take j (map (\<lambda>doc. EmbedOf (doc_text doc)) batch)"
proof (induction batch arbitrary: vectors w)
  case Nil
  then show ?case by simp
next
  case (Cons doc batch)
  let ?c = "EmbeddingsCreate (embedding_model self) (doc_text doc)"
  let ?w1 = "w\<lparr>calls := calls w @ [?c]\<rparr>"
  have w1: "snd (get_embedding self (doc_text doc) w) = ?w1"
    by (rule get_embedding_world)
  show ?case
  proof (cases "fst (get_embedding self (doc_text doc) w)")
    case (Inl e')
    with Cons.prems w1 have "w' = ?w1"
      by (auto split: prod.splits sum.splits)
    then show ?thesis
      by (intro exI [of _ "[?c]"] exI [of _ 1]) simp
  next
    case (Inr embedding)
    with Cons.prems w1 have
      "embed_batch self batch
         (vectors @ [\<lparr>vid = doc_id doc, vvalues = embedding, meta_text = doc_text doc,
                      meta_source = doc_source doc, meta_chunk_index = doc_chunk_index doc\<rparr>])
         ?w1 = (Inl e, w')"
      by (auto split: prod.splits sum.splits)
    from Cons.IH [OF this] obtain new j where
      "w' = ?w1\<lparr>calls := calls ?w1 @ new\<rparr>" "0 < j" "j \<le> length batch"
      "map shape new = take j (map (\<lambda>doc. EmbedOf (doc_text doc)) batch)"
      by blast
    then show ?thesis
      by (intro exI [of _ "?c # new"] exI [of _ "Suc j"]) simp
  qed
qed

lemma process_batch_Inr:
  assumes "process_batch self batch w = (Inr u, w')"
  shows "\<exists>new name recs vectors.
           index self = Some name \<and> map_of (pinecone w) name = Some recs \<and>
           map vid vectors = map doc_id batch \<and>
           map shape new = batch_shape batch \<and>
           w' = w\<lparr>calls := calls w @ new,
                   pinecone := AList.update name (upsert_all vectors recs) (pinecone w)\<rparr>"
proof -
  from assms obtain vectors w1 where
    e: "embed_batch self batch [] w = (Inr vectors, w1)" and
    u: "upsert (index self) vectors w1 = (Inr u, w')"
    by (auto simp: process_batch_def split: prod.splits sum.splits)
  from embed_batch_Inr [OF e] obtain new where
    w1: "w1 = w\<lparr>calls := calls w @ new\<rparr>" and
    new: "map shape new = map (\<lambda>doc. EmbedOf (doc_text doc)) batch" and
    ids: "map vid vectors = map doc_id batch"
    by auto
  from upsert_Inr [OF u] obtain name recs where
    n: "index self = Some name" "map_of (pinecone w1) name = Some recs" and
    w': "w' = w1\<lparr>calls := calls w1 @ [Upsert name vectors],
                  pinecone := AList.update name (upsert_all vectors recs) (pinecone w1)\<rparr>"
    by blast
  from w1 n w' new ids show ?thesis
    by (intro exI [of _ "new @ [Upsert name vectors]"] exI [of _ name] exI [of _ recs]
        exI [of _ vectors]) (simp add: batch_shape_def)
qed

lemma process_batch_Inl:
  assumes "process_batch self batch w = (Inl e, w')" and "batch \<noteq> []"
  shows "\<exists>new j. w' = w\<lparr>calls := calls w @ new\<rparr> \<and> 0 < j \<and> j \<le> length (batch_shape batch) \<and>
           map shape new = take j (batch_shape batch)"
proof (cases "fst (embed_batch self batch [] w)")
  case (Inl e')
  with assms(1) have "embed_batch self batch [] w = (Inl e, w')"
    by (auto simp: process_batch_def split: prod.splits sum.splits)
  from embed_batch_Inl [OF this] obtain new j where
    "w' = w\<lparr>calls := calls w @ new\<rparr>" "0 < j" "j \<le> length batch"
    "map shape new = take j (map (\<lambda>doc. EmbedOf (doc_text doc)) batch)"
    by blast
  then show ?thesis
    by (intro exI [of _ new] exI [of _ j]) (simp add: batch_shape_def)
next
  case (Inr vectors)
  then obtain w1 where e: "embed_batch self batch [] w = (Inr vectors, w1)"
    by (cases "embed_batch self batch [] w") simp
  with assms(1) have u: "upsert (index self) vectors w1 = (Inl e, w')"
    by (simp add: process_batch_def)
  from embed_batch_Inr [OF e] obtain new where
    w1: "w1 = w\<lparr>calls := calls w @ new\<rparr>" and
    new: "map shape new = map (\<lambda>doc. EmbedOf (doc_text doc)) batch" and
    ids: "map vid vectors = map doc_id batch"
    by auto
  from upsert_Inl [OF u] show ?thesis
  proof
    assume "w' = w1"
    with w1 new assms(2) show ?thesis
      by (intro exI [of _ new] exI [of _ "length batch"]) (simp add: batch_shape_def)
  next
    assume "\<exists>name. w' = w1\<lparr>calls := calls w1 @ [Upsert name vectors]\<rparr>"
    then obtain name where "w' = w1\<lparr>calls := calls w1 @ [Upsert name vectors]\<rparr>" ..
    with w1 new ids show ?thesis
      by (intro exI [of _ "new @ [Upsert name vectors]"] exI [of _ "Suc (length batch)"])
        (simp add: batch_shape_def)
  qed
qed


section \<open>The batch loop\<close>

lemma process_batch_Inl_pinecone:
  assumes "process_batch self batch w = (Inl e, w')"
  shows "pinecone w' = pinecone w"
proof (cases "fst (embed_batch self batch [] w)")
  case (Inl e')
  with assms have "embed_batch self batch [] w = (Inl e, w')"
    by (auto simp: process_batch_def split: prod.splits sum.splits)
  from embed_batch_Inl [OF this] show ?thesis by auto
next
  case (Inr vectors)
  then obtain w1 where e: "embed_batch self batch [] w = (Inr vectors, w1)"
    by (cases "embed_batch self batch [] w") simp
  with assms have u: "upsert (index self) vectors w1 = (Inl e, w')"
    by (simp add: process_batch_def)
  from embed_batch_Inr [OF e] have "pinecone w1 = pinecone w" by auto
  with upsert_Inl [OF u] show ?thesis by auto
qed

lemma ids_of_update:
  "ids_of (w\<lparr>calls := cs, pinecone := AList.update name recs (pinecone w)\<rparr>) name' =
     (if name' = name then vid ` set recs else ids_of w name')"
  by (simp add: ids_of_def update_conv')

lemma process_batch_ids_mono:
  "ids_of w name \<subseteq> ids_of (snd (process_batch self batch w)) name"
proof (cases "process_batch self batch w")
  case (Pair r w')
  show ?thesis
  proof (cases r)
    case (Inl e)
    with Pair have "pinecone w' = pinecone w" by (simp add: process_batch_Inl_pinecone)
    with Pair show ?thesis by (simp add: ids_of_def)
  next
    case (Inr u)
    with Pair process_batch_Inr [of self batch w u w'] obtain new nm recs vectors where
      "map_of (pinecone w) nm = Some recs"
      "w' = w\<lparr>calls := calls w @ new,
               pinecone := AList.update nm (upsert_all vectors recs) (pinecone w)\<rparr>"
      by auto
    with Pair show ?thesis
      by (auto simp: ids_of_update upsert_all_ids) (simp add: ids_of_def)
  qed
qed

lemma process_batch_ids_added:
  assumes "process_batch self batch w = (Inr u, w')"
  shows "\<exists>name. index self = Some name \<and> doc_id ` set batch \<subseteq> ids_of w' name"
proof -
  from process_batch_Inr [OF assms] obtain new name recs vectors where
    n: "index self = Some name" and v: "map vid vectors = map doc_id batch" and
    w': "w' = w\<lparr>calls := calls w @ new,
                 pinecone := AList.update name (upsert_all vectors recs) (pinecone w)\<rparr>"
    by blast
  from v have "vid ` set vectors = doc_id ` set batch"
    by (metis set_map)
  with n w' show ?thesis
    by (simp add: ids_of_update upsert_all_ids)
qed

lemma world_before_ids_mono:
  "k \<le> m \<Longrightarrow> ids_of (world_before self documents k w) name
     \<subseteq> ids_of (world_before self documents m w) name"
proof (induction m)
  case 0
  then show ?case by simp
next
  case (Suc m)
  show ?case
  proof (cases "k = Suc m")
    case True
    then show ?thesis by simp
  next
    case False
    with Suc.prems have "k \<le> m" by simp
    from Suc.IH [OF this] process_batch_ids_mono show ?thesis
      by (simp only: world_before.simps) blast
  qed
qed

lemma batch_loop_step:
  assumes "i < length documents"
  shows "batch_loop self documents i w =
           (case process_batch self (take 100 (drop i documents)) w of
              (Inl e, w') \<Rightarrow> (Inl e, w')
            | (Inr u, w') \<Rightarrow> batch_loop self documents (i + 100) w')"
  using assms by (subst batch_loop.simps) simp

lemma batch_loop_ok:
  assumes "i < length documents"
    and "process_batch self (take 100 (drop i documents)) w = (Inr u, w')"
  shows "batch_loop self documents i w = batch_loop self documents (i + 100) w'"
  using assms(2) by (simp add: batch_loop_step [OF assms(1)])

lemma batch_loop_fail:
  assumes "i < length documents"
    and "process_batch self (take 100 (drop i documents)) w = (Inl e, w')"
  shows "batch_loop self documents i w = (Inl e, w')"
  using assms(2) by (simp add: batch_loop_step [OF assms(1)])

lemma batch_loop_unroll:
  assumes "\<forall>k<n. fst (process_batch self (batch_at documents k)
                         (world_before self documents k w)) = Inr ()"
    and "n = 0 \<or> 100 * (n - 1) < length documents"
  shows "batch_loop self documents 0 w =
           batch_loop self documents (100 * n) (world_before self documents n w)"
  using assms
proof (induction n)
  case 0
  then show ?case by simp
next
  case (Suc n)
  from Suc.prems have len: "100 * n < length documents" by simp
  then have "n = 0 \<or> 100 * (n - 1) < length documents" by auto
  with Suc have "batch_loop self documents 0 w =
      batch_loop self documents (100 * n) (world_before self documents n w)"
    by simp
  also from Suc.prems have ok: "fst (process_batch self (batch_at documents n)
      (world_before self documents n w)) = Inr ()"
    by simp
  then have "process_batch self (take 100 (drop (100 * n) documents))
      (world_before self documents n w) = (Inr (), world_before self documents (Suc n) w)"
    by (simp add: prod_eq_iff batch_at_def)
  from batch_loop_ok [OF len this]
  have "batch_loop self documents (100 * n) (world_before self documents n w) =
      batch_loop self documents (100 * n + 100) (world_before self documents (Suc n) w)" .
  finally show ?case by (simp add: add.commute)
qed

lemma world_before_calls:
  assumes "\<forall>k<n. fst (process_batch self (batch_at documents k)
                         (world_before self documents k w)) = Inr ()"
  shows "\<exists>new. calls (world_before self documents n w) = calls w @ new \<and>
           map shape new = concat (map (\<lambda>k. batch_shape (batch_at documents k)) [0..<n])"
  using assms
proof (induction n)
  case 0
  then show ?case by simp
next
  case (Suc n)
  let ?wn = "world_before self documents n w"
  from Suc obtain new where
    new: "calls ?wn = calls w @ new"
         "map shape new = concat (map (\<lambda>k. batch_shape (batch_at documents k)) [0..<n])"
    by auto
  from Suc.prems have "fst (process_batch self (batch_at documents n) ?wn) = Inr ()" by simp
  then have "process_batch self (batch_at documents n) ?wn =
      (Inr (), world_before self documents (Suc n) w)"
    by (simp add: prod_eq_iff)
  from process_batch_Inr [OF this] obtain new' where
    "map shape new' = batch_shape (batch_at documents n)"
    "calls (world_before self documents (Suc n) w) = calls ?wn @ new'"
    by auto
  with new show ?case
    by (intro exI [of _ "new @ new'"]) simp
qed

text \<open>
  C5.  Let the documents read from the data directory be processed in batches of 100,
  let the batches before batch \<open>n\<close> succeed, and let an embedding call or the upsert
  call of batch \<open>n\<close> raise \<open>e\<close>.  Then \<open>index_documents\<close> raises \<open>e\<close>; the ids of
  every document of every batch before \<open>n\<close> are ids of records in the index when it
  does (nothing is rolled back); and the calls it has made are, in order, the embedding
  calls and the upsert call of each batch before \<open>n\<close>, followed by a non-empty initial
  part of the calls of batch \<open>n\<close>: no call is made for a later batch.
\<close>

theorem index_documents_batch_failure:
  assumes "data_files w = Some entries" and "read_files self entries [] = Inr documents"
    and "100 * n < length documents"
    and "\<forall>k<n. fst (process_batch self (batch_at documents k)
                        (world_before self documents k w)) = Inr ()"
    and "fst (process_batch self (batch_at documents n)
                (world_before self documents n w)) = Inl e"
  shows "\<exists>w' new j.
           index_documents self w = (Inl e, w') \<and>
           (\<forall>k<n. \<forall>doc \<in> set (batch_at documents k).
              \<exists>name. index self = Some name \<and> doc_id doc \<in> ids_of w' name) \<and>
           calls w' = calls w @ new \<and>
           0 < j \<and> j \<le> length (batch_shape (batch_at documents n)) \<and>
           map shape new =
             concat (map (\<lambda>k. batch_shape (batch_at documents k)) [0..<n]) @
             take j (batch_shape (batch_at documents n))"
proof -
  let ?wn = "world_before self documents n w"
  let ?w' = "world_before self documents (Suc n) w"
  have fail: "process_batch self (batch_at documents n) ?wn = (Inl e, ?w')"
    using assms(5) by (simp add: prod_eq_iff)
  have "n = 0 \<or> 100 * (n - 1) < length documents"
    using assms(3) by auto
  with assms(4) have "batch_loop self documents 0 w = batch_loop self documents (100 * n) ?wn"
    by (rule batch_loop_unroll)
  also have "\<dots> = (Inl e, ?w')"
    using fail by (intro batch_loop_fail [OF assms(3)]) (simp add: batch_at_def)
  finally have run: "index_documents self w = (Inl e, ?w')"
    using assms(1,2) by (simp add: index_documents_def)
  have kept: "\<forall>k<n. \<forall>doc \<in> set (batch_at documents k).
      \<exists>name. index self = Some name \<and> doc_id doc \<in> ids_of ?w' name"
  proof (intro allI impI ballI)
    fix k doc
    assume k: "k < n" and doc: "doc \<in> set (batch_at documents k)"
    from assms(4) k have "process_batch self (batch_at documents k)
        (world_before self documents k w) = (Inr (), world_before self documents (Suc k) w)"
      by (simp add: prod_eq_iff)
    from process_batch_ids_added [OF this] obtain name where
      name: "index self = Some name" and
      added: "doc_id ` set (batch_at documents k) \<subseteq> ids_of (world_before self documents (Suc k) w) name"
      by blast
    from k have "Suc k \<le> Suc n" by simp
    from world_before_ids_mono [OF this] added doc
    have "doc_id doc \<in> ids_of ?w' name" by blast
    with name show "\<exists>name. index self = Some name \<and> doc_id doc \<in> ids_of ?w' name" by blast
  qed
  from world_before_calls [OF assms(4)] obtain new where
    new: "calls ?wn = calls w @ new"
         "map shape new = concat (map (\<lambda>k. batch_shape (batch_at documents k)) [0..<n])"
    by blast
  have "batch_at documents n \<noteq> []"
    using assms(3) by (simp add: batch_at_def)
  from process_batch_Inl [OF fail this] obtain new' j where
    j: "0 < j" "j \<le> length (batch_shape (batch_at documents n))" and
    new': "calls ?w' = calls ?wn @ new'"
          "map shape new' = take j (batch_shape (batch_at documents n))"
    by auto
  from new new' have "calls ?w' = calls w @ (new @ new')"
    and "map shape (new @ new') =
      concat (map (\<lambda>k. batch_shape (batch_at documents k)) [0..<n]) @
      take j (batch_shape (batch_at documents n))"
    by simp_all
  with run kept j show ?thesis by blast
qed

section \<open>Runs without failures\<close>

lemma quiet_until_calls [simp]: "quiet_until (w\<lparr>calls := cs\<rparr>) n = quiet_until w n"
  by (simp add: quiet_until_def)

lemma embed_batch_quiet:
  "quiet_until w n \<Longrightarrow> length (calls w) + length batch \<le> n \<Longrightarrow>
     \<exists>vectors'. fst (embed_batch self batch vectors w) = Inr vectors'"
proof (induction batch arbitrary: vectors w)
  case Nil
  then show ?case by simp
next
  case (Cons doc batch)
  let ?c = "EmbeddingsCreate (embedding_model self) (doc_text doc)"
  let ?w1 = "w\<lparr>calls := calls w @ [?c]\<rparr>"
  from Cons.prems have "fault w (calls w) ?c = None"
    by (simp add: quiet_until_def)
  then have g: "get_embedding self (doc_text doc) w = (Inr (embedding_of w (calls w) (doc_text doc)), ?w1)"
    by (simp add: get_embedding_def embeddings_create_def external_def)
  from Cons.prems have "quiet_until ?w1 n" and "length (calls ?w1) + length batch \<le> n"
    by simp_all
  from Cons.IH [OF this] g show ?case by simp
qed

lemma process_batch_quiet:
  assumes "quiet_until w n" and "length (calls w) + length batch < n"
    and "index self = Some name" and "map_of (pinecone w) name = Some recs"
  shows "fst (process_batch self batch w) = Inr ()"
proof -
  from embed_batch_quiet [OF assms(1), of batch self "[]"] assms(2)
  obtain vectors where "fst (embed_batch self batch [] w) = Inr vectors" by auto
  then obtain w1 where e: "embed_batch self batch [] w = (Inr vectors, w1)"
    by (cases "embed_batch self batch [] w") simp
  from embed_batch_Inr [OF e] obtain new where
    w1: "w1 = w\<lparr>calls := calls w @ new\<rparr>" and
    new: "map shape new = map (\<lambda>doc. EmbedOf (doc_text doc)) batch"
    by auto
  from new have "length new = length batch" by (metis length_map)
  with w1 assms(2) have "length (calls w1) < n" by simp
  with assms(1) w1 have "fault w1 (calls w1) (Upsert name vectors) = None"
    by (simp add: quiet_until_def)
  with w1 assms(3,4) e show ?thesis
    by (simp add: process_batch_def upsert_def external_def)
qed

lemma process_batch_Inr_world:
  assumes "process_batch self batch w = (Inr u, w')"
  shows "length (calls w') = length (calls w) + length batch + 1 \<and> fault w' = fault w \<and>
         embedding_of w' = embedding_of w \<and> data_files w' = data_files w \<and>
         (\<forall>name. (map_of (pinecone w') name = None) = (map_of (pinecone w) name = None))"
proof -
  from process_batch_Inr [OF assms] obtain new name recs vectors where
    n: "map_of (pinecone w) name = Some recs" and
    s: "map shape new = batch_shape batch" and
    w': "w' = w\<lparr>calls := calls w @ new,
                 pinecone := AList.update name (upsert_all vectors recs) (pinecone w)\<rparr>"
    by blast
  from s have "length new = length (batch_shape batch)" by (metis length_map)
  then have "length new = length batch + 1" by (simp add: batch_shape_def)
  with n w' show ?thesis by (auto simp: update_conv')
qed

lemma chunk_text_one_word: "chunk_text self [97] 512 = Inr [[97]]"
  by (simp add: chunk_text_def py_split.simps isspace_def chunk_loop.simps py_strip_def)

lemma read_files_one_word_files:
  "read_files self (map (\<lambda>i. (str_nat i @ ustr ''.md'', Some [97])) js) documents =
     Inr (documents @
          map (\<lambda>i. \<lparr>doc_id = str_nat i @ ustr ''.md'' @ ustr ''_'' @ str_nat 0, doc_text = [97],
                     doc_source = str_nat i @ ustr ''.md'', doc_chunk_index = 0\<rparr>) js)"
proof (induction js arbitrary: documents)
  case Nil
  then show ?case by simp
next
  case (Cons j js)
  have "py_endswith (str_nat j @ ustr ''.md'') (ustr ''.md'')"
    by (simp add: py_endswith_def ustr_def)
  with Cons show ?case
    by (simp add: chunk_text_one_word enumerate_simps)
qed

lemma demo_documents_read: "read_files demo_engine demo_many_files [] = Inr demo_documents"
  unfolding demo_many_files_def demo_documents_def
  using read_files_one_word_files [of demo_engine "[0..<101]" "[]"] by simp

lemma demo_failing_world_quiet: "quiet_until demo_failing_world 101"
  by (simp add: quiet_until_def demo_failing_world_def)

lemma demo_first_batch:
  "fst (process_batch demo_engine (batch_at demo_documents 0) demo_failing_world) = Inr ()"
proof (rule process_batch_quiet [OF demo_failing_world_quiet])
  show "length (calls demo_failing_world) + length (batch_at demo_documents 0) < 101"
    by (simp add: demo_failing_world_def demo_world_def batch_at_def demo_documents_def)
  show "index demo_engine = Some (ustr ''acme-tech-chatbot'')"
    by (simp add: demo_engine_def)
  show "map_of (pinecone demo_failing_world) (ustr ''acme-tech-chatbot'') = Some []"
    by (simp add: demo_failing_world_def demo_world_def)
qed

lemma demo_second_batch:
  "fst (process_batch demo_engine (batch_at demo_documents 1)
         (world_before demo_engine demo_documents 1 demo_failing_world)) =
     Inl (ProviderError (ustr ''rate limit''))"
proof -
  let ?w1 = "world_before demo_engine demo_documents 1 demo_failing_world"
  have "process_batch demo_engine (batch_at demo_documents 0) demo_failing_world = (Inr (), ?w1)"
    using demo_first_batch by (simp add: prod_eq_iff)
  from process_batch_Inr_world [OF this]
  have len: "length (calls ?w1) = 101" and f: "fault ?w1 = fault demo_failing_world"
    by (simp_all add: demo_failing_world_def demo_world_def batch_at_def demo_documents_def)
  have "length (batch_at demo_documents 1) = 1"
    by (simp add: batch_at_def demo_documents_def)
  then obtain doc where b: "batch_at demo_documents 1 = [doc]"
    by (cases "batch_at demo_documents 1") auto
  have "fault ?w1 (calls ?w1) (EmbeddingsCreate (embedding_model demo_engine) (doc_text doc)) =
      Some (ProviderError (ustr ''rate limit''))"
    using len by (simp only: f) (simp add: demo_failing_world_def)
  then show ?thesis
    by (simp only: b)
      (simp add: process_batch_def get_embedding_def embeddings_create_def external_def)
qed


theorem index_documents_batch_failure_witness:
  "data_files demo_failing_world = Some demo_many_files \<and>
   read_files demo_engine demo_many_files [] = Inr demo_documents \<and>
   100 * 1 < length demo_documents \<and>
   fst (process_batch demo_engine (batch_at demo_documents 0)
          (world_before demo_engine demo_documents 0 demo_failing_world)) = Inr () \<and>
   fst (process_batch demo_engine (batch_at demo_documents 1)
          (world_before demo_engine demo_documents 1 demo_failing_world)) =
     Inl (ProviderError (ustr ''rate limit'')) \<and>
   (\<exists>w' new j.
      index_documents demo_engine demo_failing_world =
        (Inl (ProviderError (ustr ''rate limit'')), w') \<and>
      (\<exists>name. index demo_engine = Some name \<and>
         doc_id ` set (batch_at demo_documents 0) \<subseteq> ids_of w' name) \<and>
      calls w' = calls demo_failing_world @ new \<and>
      0 < j \<and> j \<le> length (batch_shape (batch_at demo_documents 1)) \<and>
      map shape new =
        batch_shape (batch_at demo_documents 0) @ take j (batch_shape (batch_at demo_documents 1)))"
proof -
  have files: "data_files demo_failing_world = Some demo_many_files"
    by (simp add: demo_failing_world_def)
  have len: "100 * 1 < length demo_documents"
    by (simp add: demo_documents_def)
  have first: "fst (process_batch demo_engine (batch_at demo_documents 0)
      (world_before demo_engine demo_documents 0 demo_failing_world)) = Inr ()"
    using demo_first_batch by simp
  then have before: "\<forall>k<1. fst (process_batch demo_engine (batch_at demo_documents k)
      (world_before demo_engine demo_documents k demo_failing_world)) = Inr ()"
    by simp
  from index_documents_batch_failure
    [OF files demo_documents_read len before demo_second_batch]
  obtain w' new j where
    run: "index_documents demo_engine demo_failing_world =
      (Inl (ProviderError (ustr ''rate limit'')), w')" and
    kept: "\<forall>k<1. \<forall>doc \<in> set (batch_at demo_documents k).
      \<exists>name. index demo_engine = Some name \<and> doc_id doc \<in> ids_of w' name" and
    calls: "calls w' = calls demo_failing_world @ new" "0 < j"
      "j \<le> length (batch_shape (batch_at demo_documents 1))"
      "map shape new =
        concat (map (\<lambda>k. batch_shape (batch_at demo_documents k)) [0..<1]) @
        take j (batch_shape (batch_at demo_documents 1))"
    by blast
  have name: "index demo_engine = Some (ustr ''acme-tech-chatbot'')"
    by (simp add: demo_engine_def)
  from kept name have "doc_id ` set (batch_at demo_documents 0) \<subseteq> ids_of w' (ustr ''acme-tech-chatbot'')"
    by auto
  with name have stored: "\<exists>name. index demo_engine = Some name \<and>
      doc_id ` set (batch_at demo_documents 0) \<subseteq> ids_of w' name"
    by blast
  from calls(4) have shape: "map shape new =
      batch_shape (batch_at demo_documents 0) @ take j (batch_shape (batch_at demo_documents 1))"
    by simp
  from files demo_documents_read len first demo_second_batch run stored calls(1,2,3) shape
  show ?thesis by blast
qed

section \<open>Indexing twice\<close>

lemma upserted_ids_append: "upserted_ids (cs @ ds) = upserted_ids cs @ upserted_ids ds"
  by (simp add: upserted_ids_def)

lemma upserted_ids_batch:
  assumes "map shape new = batch_shape batch"
  shows "upserted_ids new = map doc_id batch"
proof -
  have "upserted_ids new = concat (map shape_ids (map shape new))"
    by (simp add: upserted_ids_def comp_def)
  also have "\<dots> = concat (map shape_ids (batch_shape batch))"
    by (simp only: assms)
  also have "\<dots> = map doc_id batch"
    by (simp add: batch_shape_def comp_def)
  finally show ?thesis .
qed

lemma batch_then_rest: "take 100 (drop i xs) @ drop (i + 100) xs = drop i xs"
  by (metis add.commute append_take_drop_id drop_drop)

lemma batch_loop_done: "length documents \<le> i \<Longrightarrow> batch_loop self documents i w = (Inr (), w)"
  by (subst batch_loop.simps) simp

lemma batch_loop_Inr_step:
  assumes "batch_loop self documents i w = (Inr u, w')" and "i < length documents"
  obtains w1 where "process_batch self (take 100 (drop i documents)) w = (Inr (), w1)"
    and "batch_loop self documents (i + 100) w1 = (Inr u, w')"
  using assms
  by (subst (asm) batch_loop_step) (auto split: prod.splits sum.splits)

lemma batch_loop_Inr_calls:
  "batch_loop self documents i w = (Inr u, w') \<Longrightarrow>
     \<exists>new. calls w' = calls w @ new \<and> upserted_ids new = map doc_id (drop i documents) \<and>
           data_files w' = data_files w"
proof (induction "length documents - i" arbitrary: i w rule: less_induct)
  case less
  show ?case
  proof (cases "length documents \<le> i")
    case True
    with less.prems have "w' = w" by (simp add: batch_loop_done)
    with True show ?thesis by (simp add: upserted_ids_def)
  next
    case False
    then have i: "i < length documents" by simp
    from less.prems i obtain w1 where
      p: "process_batch self (take 100 (drop i documents)) w = (Inr (), w1)" and
      r: "batch_loop self documents (i + 100) w1 = (Inr u, w')"
      by (rule batch_loop_Inr_step)
    from process_batch_Inr [OF p] obtain new1 where
      n1: "map shape new1 = batch_shape (take 100 (drop i documents))"
          "calls w1 = calls w @ new1" "data_files w1 = data_files w"
      by auto
    from i have "length documents - (i + 100) < length documents - i" by simp
    from less.hyps [OF this r] obtain new2 where
      n2: "calls w' = calls w1 @ new2"
          "upserted_ids new2 = map doc_id (drop (i + 100) documents)"
          "data_files w' = data_files w1"
      by blast
    have "upserted_ids (new1 @ new2) =
        map doc_id (take 100 (drop i documents) @ drop (i + 100) documents)"
      using n1(1) n2(2) by (simp add: upserted_ids_append upserted_ids_batch)
    then have "upserted_ids (new1 @ new2) = map doc_id (drop i documents)"
      by (simp only: batch_then_rest)
    with n1 n2 show ?thesis
      by (intro exI [of _ "new1 @ new2"]) simp
  qed
qed

lemma batch_loop_ids_mono:
  "batch_loop self documents i w = (Inr u, w') \<Longrightarrow> ids_of w name \<subseteq> ids_of w' name"
proof (induction "length documents - i" arbitrary: i w rule: less_induct)
  case less
  show ?case
  proof (cases "length documents \<le> i")
    case True
    with less.prems show ?thesis by (simp add: batch_loop_done)
  next
    case False
    then have i: "i < length documents" by simp
    from less.prems i obtain w1 where
      p: "process_batch self (take 100 (drop i documents)) w = (Inr (), w1)" and
      r: "batch_loop self documents (i + 100) w1 = (Inr u, w')"
      by (rule batch_loop_Inr_step)
    from process_batch_ids_mono [of w name self "take 100 (drop i documents)"] p
    have "ids_of w name \<subseteq> ids_of w1 name" by simp
    moreover from i have "length documents - (i + 100) < length documents - i" by simp
    from less.hyps [OF this r] have "ids_of w1 name \<subseteq> ids_of w' name" .
    ultimately show ?thesis by blast
  qed
qed

lemma batch_loop_Inr_stored:
  assumes "batch_loop self documents i w = (Inr u, w')" and "i < length documents"
  shows "\<exists>name. index self = Some name \<and> doc_id ` set (drop i documents) \<subseteq> ids_of w' name"
  using assms
proof (induction "length documents - i" arbitrary: i w rule: less_induct)
  case less
  from less.prems obtain w1 where
    p: "process_batch self (take 100 (drop i documents)) w = (Inr (), w1)" and
    r: "batch_loop self documents (i + 100) w1 = (Inr u, w')"
    by (rule batch_loop_Inr_step)
  from process_batch_ids_added [OF p] obtain name where
    name: "index self = Some name" and
    b: "doc_id ` set (take 100 (drop i documents)) \<subseteq> ids_of w1 name"
    by blast
  from batch_loop_ids_mono [OF r] b
  have first: "doc_id ` set (take 100 (drop i documents)) \<subseteq> ids_of w' name" by blast
  have rest: "doc_id ` set (drop (i + 100) documents) \<subseteq> ids_of w' name"
  proof (cases "i + 100 < length documents")
    case True
    from less.prems(2) have "length documents - (i + 100) < length documents - i" by simp
    from less.hyps [OF this r True] name show ?thesis by simp
  next
    case False
    then show ?thesis by simp
  qed
  have "set (drop i documents) =
      set (take 100 (drop i documents)) \<union> set (drop (i + 100) documents)"
    by (metis batch_then_rest set_append)
  with first rest name show ?case by auto
qed

lemma ids_of_stored: 
  "ids_of w name = (case map_of (stored_ids w) name of None \<Rightarrow> {} | Some ids \<Rightarrow> set ids)"
proof -
  have "map_of (stored_ids w) name = map_option (map vid) (map_of (pinecone w) name)"
    unfolding stored_ids_def by (induction "pinecone w" arbitrary: w) (auto simp: map_of_map)
  then show ?thesis
    by (simp add: ids_of_def split: option.splits)
qed

lemma update_same_ids:
  "map_of al name = Some recs \<Longrightarrow> map vid recs' = map vid recs \<Longrightarrow>
     map (\<lambda>(name, recs). (name, map vid recs)) (AList.update name recs' al) =
     map (\<lambda>(name, recs). (name, map vid recs)) al"
  by (induction al) (auto split: if_splits)

lemma process_batch_known_ids:
  assumes "process_batch self batch w = (Inr u, w')" and "index self = Some name"
    and "doc_id ` set batch \<subseteq> ids_of w name"
  shows "stored_ids w' = stored_ids w"
proof -
  from process_batch_Inr [OF assms(1)] assms(2) obtain new recs vectors where
    recs: "map_of (pinecone w) name = Some recs" and
    v: "map vid vectors = map doc_id batch" and
    w': "w' = w\<lparr>calls := calls w @ new,
                 pinecone := AList.update name (upsert_all vectors recs) (pinecone w)\<rparr>"
    by auto
  from v have "vid ` set vectors = doc_id ` set batch" by (metis set_map)
  with assms(3) recs have "vid ` set vectors \<subseteq> vid ` set recs"
    by (simp add: ids_of_def)
  then have "map vid (upsert_all vectors recs) = map vid recs"
    by (rule upsert_all_known)
  with recs w' show ?thesis
    by (simp add: stored_ids_def update_same_ids)
qed

lemma batch_loop_known_ids:
  assumes "batch_loop self documents i w = (Inr u, w')" and "index self = Some name"
    and "doc_id ` set (drop i documents) \<subseteq> ids_of w name"
  shows "stored_ids w' = stored_ids w"
  using assms(1,3)
proof (induction "length documents - i" arbitrary: i w rule: less_induct)
  case less
  show ?case
  proof (cases "length documents \<le> i")
    case True
    with less.prems show ?thesis by (simp add: batch_loop_done)
  next
    case False
    then have i: "i < length documents" by simp
    from less.prems(1) i obtain w1 where
      p: "process_batch self (take 100 (drop i documents)) w = (Inr (), w1)" and
      r: "batch_loop self documents (i + 100) w1 = (Inr u, w')"
      by (rule batch_loop_Inr_step)
    have split: "set (drop i documents) =
        set (take 100 (drop i documents)) \<union> set (drop (i + 100) documents)"
      by (metis batch_then_rest set_append)
    with less.prems(2) have "doc_id ` set (take 100 (drop i documents)) \<subseteq> ids_of w name"
      by auto
    from process_batch_known_ids [OF p assms(2) this]
    have s1: "stored_ids w1 = stored_ids w" .
    then have "ids_of w1 name = ids_of w name" by (simp add: ids_of_stored)
    with less.prems(2) split have "doc_id ` set (drop (i + 100) documents) \<subseteq> ids_of w1 name"
      by auto
    moreover from i have "length documents - (i + 100) < length documents - i" by simp
    ultimately have "stored_ids w' = stored_ids w1"
      using less.hyps r by blast
    with s1 show ?thesis by simp
  qed
qed

lemma index_documents_Inr:
  assumes "index_documents self w = (Inr u, w')"
  obtains entries documents where "data_files w = Some entries"
    and "read_files self entries [] = Inr documents"
    and "batch_loop self documents 0 w = (Inr u, w')"
  using assms by (auto simp: index_documents_def split: option.splits sum.splits)

text \<open>
  C6.  Let \<open>index_documents\<close> run to its end twice in a row (the guard of \<open>initialize\<close>
  is not involved), over the same data directory.  Both runs build the same documents
  and upsert the same ids, in the same order: the ids of those documents.  The second
  run leaves the ids held by every index exactly as the first run left them: each of its
  upserts replaced a record, none created one.
\<close>

theorem reindexing_replaces_by_id:
  assumes "index_documents self w = (Inr (), w1)" and "index_documents self w1 = (Inr (), w2)"
  shows "\<exists>entries documents new1 new2.
           data_files w = Some entries \<and> data_files w1 = Some entries \<and>
           read_files self entries [] = Inr documents \<and>
           calls w1 = calls w @ new1 \<and> calls w2 = calls w1 @ new2 \<and>
           upserted_ids new1 = map doc_id documents \<and>
           upserted_ids new2 = map doc_id documents \<and>
           stored_ids w2 = stored_ids w1"
proof -
  from assms(1) obtain entries documents where
    f: "data_files w = Some entries" and d: "read_files self entries [] = Inr documents" and
    l1: "batch_loop self documents 0 w = (Inr (), w1)"
    by (rule index_documents_Inr)
  from batch_loop_Inr_calls [OF l1] obtain new1 where
    n1: "calls w1 = calls w @ new1" "upserted_ids new1 = map doc_id documents"
        "data_files w1 = data_files w"
    by auto
  from assms(2) n1(3) f d have l2: "batch_loop self documents 0 w1 = (Inr (), w2)"
    by (simp add: index_documents_def)
  from batch_loop_Inr_calls [OF l2] obtain new2 where
    n2: "calls w2 = calls w1 @ new2" "upserted_ids new2 = map doc_id documents"
    by auto
  have same: "stored_ids w2 = stored_ids w1"
  proof (cases "documents = []")
    case True
    with l2 show ?thesis by (simp add: batch_loop_done)
  next
    case False
    then have "0 < length documents" by simp
    from batch_loop_Inr_stored [OF l1 this] obtain name where
      "index self = Some name" "doc_id ` set (drop 0 documents) \<subseteq> ids_of w1 name"
      by blast
    with l2 show ?thesis by (rule batch_loop_known_ids)
  qed
  from f d n1 n2 same show ?thesis by auto
qed


lemma demo_documents_faq:
  "read_files demo_engine
     [(ustr ''faq.md'', Some (ustr ''refunds within 30 days'')), (ustr ''logo.png'', None)] [] =
   Inr [\<lparr>doc_id = ustr ''faq.md_0'', doc_text = ustr ''refunds within 30 days'',
         doc_source = ustr ''faq.md'', doc_chunk_index = 0\<rparr>]"
  by (simp add: py_endswith_def ustr_def chunk_text_def py_split.simps isspace_def
      chunk_loop.simps py_strip_def enumerate_simps str_nat.simps Let_def)

lemma demo_first_run: "index_documents demo_engine demo_world = (Inr (), demo_world_indexed)"
proof -
  let ?doc = "\<lparr>doc_id = ustr ''faq.md_0'', doc_text = ustr ''refunds within 30 days'',
                doc_source = ustr ''faq.md'', doc_chunk_index = 0\<rparr>"
  have "data_files demo_world =
      Some [(ustr ''faq.md'', Some (ustr ''refunds within 30 days'')), (ustr ''logo.png'', None)]"
    by (simp add: demo_world_def)
  then have "index_documents demo_engine demo_world = batch_loop demo_engine [?doc] 0 demo_world"
    using demo_documents_faq by (simp add: index_documents_def)
  also have "\<dots> = (Inr (), demo_world_indexed)"
    by (simp add: batch_loop.simps process_batch_def get_embedding_def embeddings_create_def
        external_def upsert_def upsert_all_def demo_engine_def demo_world_def
        demo_world_indexed_def ustr_def)
  finally show ?thesis .
qed

lemma demo_second_run:
  "index_documents demo_engine demo_world_indexed =
     (Inr (), snd (index_documents demo_engine demo_world_indexed))"
proof -
  let ?doc = "\<lparr>doc_id = ustr ''faq.md_0'', doc_text = ustr ''refunds within 30 days'',
                doc_source = ustr ''faq.md'', doc_chunk_index = 0\<rparr>"
  have "data_files demo_world_indexed =
      Some [(ustr ''faq.md'', Some (ustr ''refunds within 30 days'')), (ustr ''logo.png'', None)]"
    by (simp add: demo_world_indexed_def demo_world_def)
  then have run: "index_documents demo_engine demo_world_indexed =
      batch_loop demo_engine [?doc] 0 demo_world_indexed"
    using demo_documents_faq by (simp add: index_documents_def)
  have "fst (batch_loop demo_engine [?doc] 0 demo_world_indexed) = Inr ()"
    by (simp add: batch_loop.simps process_batch_def get_embedding_def embeddings_create_def
        external_def upsert_def upsert_all_def demo_engine_def demo_world_def
        demo_world_indexed_def ustr_def)
  with run show ?thesis by (simp add: prod_eq_iff)
qed

theorem reindexing_replaces_by_id_witness:
  "index_documents demo_engine demo_world = (Inr (), demo_world_indexed) \<and>
   index_documents demo_engine demo_world_indexed =
     (Inr (), snd (index_documents demo_engine demo_world_indexed)) \<and>
   (\<exists>entries documents new1 new2.
      data_files demo_world = Some entries \<and> data_files demo_world_indexed = Some entries \<and>
      read_files demo_engine entries [] = Inr documents \<and>
      calls demo_world_indexed = calls demo_world @ new1 \<and>
      calls (snd (index_documents demo_engine demo_world_indexed)) =
        calls demo_world_indexed @ new2 \<and>
      upserted_ids new1 = map doc_id documents \<and>
      upserted_ids new2 = map doc_id documents \<and>
      stored_ids (snd (index_documents demo_engine demo_world_indexed)) =
        stored_ids demo_world_indexed)"
  using demo_first_run demo_second_run
    reindexing_replaces_by_id [OF demo_first_run demo_second_run]
  by blast

end
